theory Spec2Isabelle
  imports Complex_Main "HOL-Library.AList" "HOL-Library.Multiset" "HOL-Library.Sublist"
begin

section \<open>Python values used by the pipeline\<close>

subsection \<open>Floats: IEEE binary64 with round-to-nearest-even\<close>

text \<open>
  Python's \<open>float\<close> is an IEEE 754 binary64 number.  A finite float is modelled by the real
  number it denotes; every arithmetic operation of the source is the exact operation followed
  by \<open>rnd\<close>, rounding to the nearest number with a 53-bit significand, ties to the even
  significand, with gradual underflow (the smallest exponent of the unit in the last place is
  \<open>-1074\<close>).  Overflow to infinity and NaN are not modelled: the pipeline's coordinates are
  normalized and far from the overflow threshold.  Comparisons, \<open>max\<close> and \<open>min\<close>
  are exact.
\<close>

definition round_half_even :: "real \<Rightarrow> int" where
  "round_half_even x =
     (let f = \<lfloor>x\<rfloor>; r = x - of_int f
      in if r < 1 / 2 then f else if 1 / 2 < r then f + 1 else if even f then f else f + 1)"

text \<open>\<open>ilog2 x\<close> is the binary exponent of a positive \<open>x\<close>: \<open>2 ^ ilog2 x \<le> x < 2 ^ (ilog2 x + 1)\<close>.\<close>

function ilog2_up :: "real \<Rightarrow> nat" where
  "ilog2_up x = (if x < 2 then 0 else Suc (ilog2_up (x / 2)))"
  by pat_completeness auto
termination
proof (relation "measure (\<lambda>x. nat \<lfloor>x\<rfloor>)")
  show "wf (measure (\<lambda>x::real. nat \<lfloor>x\<rfloor>))" by simp
next
  fix x :: real
  assume "\<not> x < 2"
  then have "\<lfloor>x / 2\<rfloor> < \<lfloor>x\<rfloor>" and "0 < \<lfloor>x\<rfloor>" by linarith+
  then show "(x / 2, x) \<in> measure (\<lambda>x. nat \<lfloor>x\<rfloor>)" by simp
qed

function ilog2_down :: "real \<Rightarrow> nat" where
  "ilog2_down x = (if x \<le> 0 \<or> 1 \<le> x then 0 else Suc (ilog2_down (2 * x)))"
  by pat_completeness auto
termination
proof (relation "measure (\<lambda>x. nat \<lfloor>1 / x\<rfloor>)")
  show "wf (measure (\<lambda>x::real. nat \<lfloor>1 / x\<rfloor>))" by simp
next
  fix x :: real
  assume "\<not> (x \<le> 0 \<or> 1 \<le> x)"
  define y where "y = 1 / x"
  have one: "1 < y" using \<open>\<not> (x \<le> 0 \<or> 1 \<le> x)\<close> by (simp add: y_def)
  have half: "1 / (2 * x) = y / 2" by (simp add: y_def)
  have "\<lfloor>y / 2\<rfloor> < \<lfloor>y\<rfloor>"
  proof (cases "y < 2")
    case True
    with one have "\<lfloor>y / 2\<rfloor> = 0" and "\<lfloor>y\<rfloor> = 1"
      by (auto simp: floor_eq_iff)
    then show ?thesis by simp
  next
    case False
    then have "y / 2 \<le> y - 1" by simp
    then have "\<lfloor>y / 2\<rfloor> \<le> \<lfloor>y - 1\<rfloor>" by (rule floor_mono)
    then show ?thesis by simp
  qed
  moreover have "0 < \<lfloor>y\<rfloor>" using one by linarith
  ultimately have "nat \<lfloor>y / 2\<rfloor> < nat \<lfloor>y\<rfloor>" by simp
  then show "(2 * x, x) \<in> measure (\<lambda>x. nat \<lfloor>1 / x\<rfloor>)"
    unfolding in_measure half by (simp only: y_def)
qed

declare ilog2_up.simps [simp del] ilog2_down.simps [simp del]

definition ilog2 :: "real \<Rightarrow> int" where
  "ilog2 x = (if 1 \<le> x then int (ilog2_up x) else - int (ilog2_down x))"

definition ulp_exp :: "real \<Rightarrow> int" where
  "ulp_exp x = max (ilog2 \<bar>x\<bar> - 52) (- 1074)"

definition rnd :: "real \<Rightarrow> real" where
  "rnd x = (if x = 0 then 0
            else let e = ulp_exp x in of_int (round_half_even (x / 2 powi e)) * 2 powi e)"

text \<open>A real number is a float when rounding leaves it unchanged.\<close>

definition is_float :: "real \<Rightarrow> bool" where
  "is_float x \<longleftrightarrow> rnd x = x"

type_synonym bbox = "real \<times> real \<times> real \<times> real"

definition bbox_floats :: "bbox \<Rightarrow> bool" where
  "bbox_floats b = (case b of (x, y, w, h) \<Rightarrow> is_float x \<and> is_float y \<and> is_float w \<and> is_float h)"

subsection \<open>Errors, ordered dictionaries, list indexing\<close>

datatype py_error = KeyError | IndexError | QueueFull | QueueEmpty | TypeError | AttributeError

text \<open>
  A \<open>dict\<close> is an association list in insertion order with distinct keys:
  \<open>d[k] = v\<close> is \<^const>\<open>AList.update\<close> (an existing key keeps its position, a new key is
  appended), \<open>del d[k]\<close> is \<^const>\<open>AList.delete\<close>, \<open>d[k]\<close> raises \<open>KeyError\<close> on a
  missing key.
\<close>

definition dict_get :: "('k \<times> 'v) list \<Rightarrow> 'k \<Rightarrow> py_error + 'v" where
  "dict_get d k = (case map_of d k of None \<Rightarrow> Inl KeyError | Some v \<Rightarrow> Inr v)"

text \<open>\<open>xs[i]\<close>: an index below zero counts from the end, an index out of range raises.\<close>

definition list_get :: "'a list \<Rightarrow> int \<Rightarrow> py_error + 'a" where
  "list_get xs i =
     (if 0 \<le> i \<and> i < int (length xs) then Inr (xs ! nat i)
      else if i < 0 \<and> - int (length xs) \<le> i then Inr (xs ! nat (int (length xs) + i))
      else Inl IndexError)"

definition enumerate_py :: "'a list \<Rightarrow> (int \<times> 'a) list" where
  "enumerate_py xs = zip (map int [0..<length xs]) xs"

section \<open>modules/tracker/matching.py\<close>

text \<open>
  \<open>compute_iou_with r\<close> is the body of \<open>compute_iou\<close> with every arithmetic result passed
  through \<open>r\<close>; the program is \<open>compute_iou = compute_iou_with rnd\<close>, and
  \<open>compute_iou_with (\<lambda>x. x)\<close> is the same formula in exact arithmetic.
\<close>

definition compute_iou_with :: "(real \<Rightarrow> real) \<Rightarrow> bbox \<Rightarrow> bbox \<Rightarrow> real" where
  "compute_iou_with r bbox1 bbox2 =
     (case bbox1 of (x1, y1, w1, h1) \<Rightarrow>
      case bbox2 of (x2, y2, w2, h2) \<Rightarrow>
        let box1_x1 = x1; box1_y1 = y1;
            box1_x2 = r (x1 + w1); box1_y2 = r (y1 + h1);
            box2_x1 = x2; box2_y1 = y2;
            box2_x2 = r (x2 + w2); box2_y2 = r (y2 + h2);
            inter_x1 = max box1_x1 box2_x1;
            inter_y1 = max box1_y1 box2_y1;
            inter_x2 = min box1_x2 box2_x2;
            inter_y2 = min box1_y2 box2_y2
        in if inter_x2 \<le> inter_x1 \<or> inter_y2 \<le> inter_y1 then 0
           else
             let inter_area = r (r (inter_x2 - inter_x1) * r (inter_y2 - inter_y1));
                 box1_area = r (w1 * h1);
                 box2_area = r (w2 * h2);
                 union_area = r (r (box1_area + box2_area) - inter_area)
             in if union_area = 0 then 0 else r (inter_area / union_area))"

definition compute_iou :: "bbox \<Rightarrow> bbox \<Rightarrow> real" where
  "compute_iou = compute_iou_with rnd"

text \<open>
  The IoU matrix: a dict keyed by \<open>(det_idx, track_id)\<close>, filled by the nested loops
  (detections outer, tracks inner) with the pairs whose IoU reaches the threshold.
\<close>

definition iou_row ::
  "real \<Rightarrow> int \<Rightarrow> bbox \<Rightarrow> (int \<times> bbox) list \<Rightarrow> ((int \<times> int) \<times> real) list \<Rightarrow> ((int \<times> int) \<times> real) list" where
  "iou_row iou_threshold det_idx det_bbox tracks m =
     fold (\<lambda>(track_id, track_bbox) m.
             let iou = compute_iou det_bbox track_bbox
             in if iou \<ge> iou_threshold then AList.update (det_idx, track_id) iou m else m)
          tracks m"

definition iou_matrix ::
  "(int \<times> bbox) list \<Rightarrow> (int \<times> bbox) list \<Rightarrow> real \<Rightarrow> ((int \<times> int) \<times> real) list" where
  "iou_matrix detections tracks iou_threshold =
     fold (\<lambda>(det_idx, det_bbox) m. iou_row iou_threshold det_idx det_bbox tracks m) detections []"

text \<open>\<open>sorted(iou_matrix.items(), key=lambda x: x[1], reverse=True)\<close>: a stable sort, descending.\<close>

definition sorted_pairs :: "((int \<times> int) \<times> real) list \<Rightarrow> ((int \<times> int) \<times> real) list" where
  "sorted_pairs m = sort_key (\<lambda>x. - snd x) m"

text \<open>
  The greedy loop.  Its state is \<open>(matches, matched_detections, matched_tracks)\<close>;
  \<open>matches\<close> is a dict, kept in the order in which the pairs are committed.
\<close>

definition greedy_step ::
  "(int \<times> int) \<times> real \<Rightarrow> (int \<times> int) list \<times> int set \<times> int set
     \<Rightarrow> (int \<times> int) list \<times> int set \<times> int set" where
  "greedy_step p s =
     (case p of ((det_idx, track_id), iou) \<Rightarrow>
      case s of (matches, matched_detections, matched_tracks) \<Rightarrow>
        if det_idx \<notin> matched_detections \<and> track_id \<notin> matched_tracks
        then (AList.update det_idx track_id matches,
              insert det_idx matched_detections, insert track_id matched_tracks)
        else (matches, matched_detections, matched_tracks))"

definition greedy_matching ::
  "((int \<times> int) \<times> real) list \<Rightarrow> (int \<times> int) list \<times> int set \<times> int set" where
  "greedy_matching ps = fold greedy_step ps ([], {}, {})"

text \<open>
  \<open>list(s)\<close> of a set \<open>s\<close> enumerates it in the set's iteration order, which CPython does not
  fix by the order of insertion.  The order is the parameter \<open>list_of\<close>, applied to the
  elements without duplicates; the program's behaviour is that of some \<open>list_of\<close> which
  permutes its argument.
\<close>

definition match_detections_to_tracks ::
  "(int list \<Rightarrow> int list) \<Rightarrow> (int \<times> bbox) list \<Rightarrow> (int \<times> bbox) list \<Rightarrow> real
     \<Rightarrow> (int \<times> int) list \<times> int list \<times> int list" where
  "match_detections_to_tracks list_of detections tracks iou_threshold =
     (if detections = [] \<or> tracks = []
      then ([], map fst detections, map fst tracks)
      else
        case greedy_matching (sorted_pairs (iou_matrix detections tracks iou_threshold)) of
          (matches, matched_detections, matched_tracks) \<Rightarrow>
            (matches,
             list_of (filter (\<lambda>d. d \<notin> matched_detections) (remdups (map fst detections))),
             list_of (filter (\<lambda>t. t \<notin> matched_tracks) (remdups (map fst tracks)))))"

section \<open>modules/tracker/tracker.py\<close>

record history_entry =
  h_bbox :: bbox
  h_frame_id :: int
  h_timestamp_ms :: int

record Track =
  track_id :: int
  label :: string
  bbox :: bbox
  history :: "history_entry list"
  consecutive_hits :: int
  frames_since_update :: int
  stable :: bool

text \<open>\<open>deque(maxlen=n).append(x)\<close>: the oldest entry is discarded once \<open>n\<close> are held.\<close>

definition deque_append :: "nat \<Rightarrow> 'a list \<Rightarrow> 'a \<Rightarrow> 'a list" where
  "deque_append n d x = (let d' = d @ [x] in drop (length d' - n) d')"

text \<open>The dataclass constructor \<open>Track(track_id=..., label=..., bbox=...)\<close> with its defaults.\<close>

definition Track_init :: "int \<Rightarrow> string \<Rightarrow> bbox \<Rightarrow> Track" where
  "Track_init tid lbl b =
     \<lparr>track_id = tid, label = lbl, bbox = b, history = [],
      consecutive_hits = 0, frames_since_update = 0, stable = False\<rparr>"

definition Track_update :: "Track \<Rightarrow> bbox \<Rightarrow> int \<Rightarrow> int \<Rightarrow> Track" where
  "Track_update self b frame_id timestamp_ms =
     (let self = self\<lparr>bbox := b,
                       history := deque_append 5 (history self)
                          \<lparr>h_bbox = b, h_frame_id = frame_id, h_timestamp_ms = timestamp_ms\<rparr>,
                       consecutive_hits := consecutive_hits self + 1,
                       frames_since_update := 0\<rparr>
      in if consecutive_hits self \<ge> 3 then self\<lparr>stable := True\<rparr> else self)"

definition mark_missed :: "Track \<Rightarrow> Track" where
  "mark_missed self =
     self\<lparr>frames_since_update := frames_since_update self + 1, consecutive_hits := 0\<rparr>"

definition compute_velocity :: "Track \<Rightarrow> (real \<times> real) option" where
  "compute_velocity self =
     (if length (history self) < 2 then None
      else
        case h_bbox (last (history self)) of (rx, ry, rw, rh) \<Rightarrow>
        case h_bbox (last (butlast (history self))) of (px, py, pw, ph) \<Rightarrow>
          let rcx = rnd (rx + rnd (rw / 2)); rcy = rnd (ry + rnd (rh / 2));
              pcx = rnd (px + rnd (pw / 2)); pcy = rnd (py + rnd (ph / 2))
          in Some (rnd (rcx - pcx), rnd (rcy - pcy)))"

record Tracker =
  max_age :: int
  next_track_id :: int
  tracks :: "(int \<times> Track) list"

definition Tracker_init :: "int \<Rightarrow> Tracker" where
  "Tracker_init age = \<lparr>max_age = age, next_track_id = 1, tracks = []\<rparr>"

definition get_track :: "Tracker \<Rightarrow> int \<Rightarrow> Track option" where
  "get_track self tid = map_of (tracks self) tid"

definition create_track :: "Tracker \<Rightarrow> string \<Rightarrow> bbox \<Rightarrow> int \<Rightarrow> int \<Rightarrow> Tracker \<times> Track" where
  "create_track self lbl b frame_id timestamp_ms =
     (let track = Track_update (Track_init (next_track_id self) lbl b) b frame_id timestamp_ms
      in (self\<lparr>tracks := AList.update (track_id track) track (tracks self),
                next_track_id := next_track_id self + 1\<rparr>,
          track))"

definition update_track ::
  "Tracker \<Rightarrow> int \<Rightarrow> bbox \<Rightarrow> int \<Rightarrow> int \<Rightarrow> py_error + (Tracker \<times> Track)" where
  "update_track self tid b frame_id timestamp_ms =
     (case dict_get (tracks self) tid of
        Inl e \<Rightarrow> Inl e
      | Inr track \<Rightarrow>
          let track = Track_update track b frame_id timestamp_ms
          in Inr (self\<lparr>tracks := AList.update tid track (tracks self)\<rparr>, track))"

definition mark_missed_tracks :: "Tracker \<Rightarrow> int set \<Rightarrow> Tracker" where
  "mark_missed_tracks self matched_track_ids =
     self\<lparr>tracks := map (\<lambda>(tid, track).
                            if tid \<notin> matched_track_ids then (tid, mark_missed track)
                            else (tid, track))
                         (tracks self)\<rparr>"

definition evict_old_tracks :: "Tracker \<Rightarrow> Tracker \<times> int list" where
  "evict_old_tracks self =
     (self\<lparr>tracks := filter (\<lambda>(tid, track). \<not> frames_since_update track > max_age self)
                           (tracks self)\<rparr>,
      map fst (filter (\<lambda>(tid, track). frames_since_update track > max_age self) (tracks self)))"

definition get_active_tracks :: "Tracker \<Rightarrow> (int \<times> bbox) list" where
  "get_active_tracks self = map (\<lambda>(tid, track). (tid, bbox track)) (tracks self)"

section \<open>modules/tracker/module.py\<close>

record Detection =
  det_label :: string
  det_confidence :: real
  det_bbox :: bbox

record DetectionResult =
  frame_id :: int
  timestamp_ms :: int
  objects :: "Detection list"

record TrackUpdate =
  tu_track_id :: int
  tu_frame_id :: int
  tu_timestamp_ms :: int
  tu_label :: string
  tu_bbox :: bbox
  tu_stable :: bool
  tu_velocity :: "(real \<times> real) option"

text \<open>
  \<open>_publish_track_update\<close> builds the event and hands it to the result bus; the events
  published during one cycle are collected in a list, in the order of publication.
\<close>

definition publish_track_update :: "Track \<Rightarrow> int \<Rightarrow> int \<Rightarrow> TrackUpdate" where
  "publish_track_update track fid ts =
     \<lparr>tu_track_id = track_id track, tu_frame_id = fid, tu_timestamp_ms = ts,
      tu_label = label track, tu_bbox = bbox track, tu_stable = stable track,
      tu_velocity = compute_velocity track\<rparr>"

text \<open>The loop over \<open>matches.items()\<close>; an exception ends the cycle.\<close>

fun update_matched ::
  "DetectionResult \<Rightarrow> (int \<times> int) list \<Rightarrow> Tracker \<times> TrackUpdate list
     \<Rightarrow> py_error + (Tracker \<times> TrackUpdate list)" where
  "update_matched event [] s = Inr s"
| "update_matched event ((det_idx, tid) # ms) (tracker, published) =
     (case list_get (objects event) det_idx of
        Inl e \<Rightarrow> Inl e
      | Inr detection \<Rightarrow>
          (case update_track tracker tid (det_bbox detection) (frame_id event) (timestamp_ms event) of
             Inl e \<Rightarrow> Inl e
           | Inr (tracker', track) \<Rightarrow>
               update_matched event ms
                 (tracker', published @ [publish_track_update track (frame_id event) (timestamp_ms event)])))"

text \<open>The loop over \<open>unmatched_dets\<close>.\<close>

fun create_unmatched ::
  "DetectionResult \<Rightarrow> int list \<Rightarrow> Tracker \<times> TrackUpdate list
     \<Rightarrow> py_error + (Tracker \<times> TrackUpdate list)" where
  "create_unmatched event [] s = Inr s"
| "create_unmatched event (det_idx # ds) (tracker, published) =
     (case list_get (objects event) det_idx of
        Inl e \<Rightarrow> Inl e
      | Inr detection \<Rightarrow>
          (case create_track tracker (det_label detection) (det_bbox detection)
                  (frame_id event) (timestamp_ms event) of
             (tracker', track) \<Rightarrow>
               create_unmatched event ds
                 (tracker', published @ [publish_track_update track (frame_id event) (timestamp_ms event)])))"

text \<open>
  One iteration of the loop of \<open>_process_detections\<close>, for one \<open>DetectionResult\<close>: the new
  tracker and the \<open>TrackUpdate\<close>s published, or the exception that ends the loop.
\<close>

definition process_detections ::
  "(int list \<Rightarrow> int list) \<Rightarrow> real \<Rightarrow> Tracker \<Rightarrow> DetectionResult
     \<Rightarrow> py_error + (Tracker \<times> TrackUpdate list)" where
  "process_detections list_of iou_threshold tracker event =
     (let detections = map (\<lambda>(idx, det). (idx, det_bbox det)) (enumerate_py (objects event));
          active_tracks = get_active_tracks tracker
      in case match_detections_to_tracks list_of detections active_tracks iou_threshold of
           (matches, unmatched_dets, unmatched_tracks) \<Rightarrow>
             let matched_track_ids = set (map snd matches)
             in case update_matched event matches (tracker, []) of
                  Inl e \<Rightarrow> Inl e
                | Inr s1 \<Rightarrow>
                    (case create_unmatched event unmatched_dets s1 of
                       Inl e \<Rightarrow> Inl e
                     | Inr (tracker2, published) \<Rightarrow>
                         let tracker3 = mark_missed_tracks tracker2 matched_track_ids;
                             (tracker4, evicted) = evict_old_tracks tracker3
                         in Inr (tracker4, published)))"

section \<open>modules/fusion/policy.py\<close>

record FusionPolicy =
  last_announced :: "int \<rightharpoonup> int"
  announcement_count :: int

definition FusionPolicy_init :: FusionPolicy where
  "FusionPolicy_init = \<lparr>last_announced = Map.empty, announcement_count = 0\<rparr>"

definition should_announce :: "FusionPolicy \<Rightarrow> int \<Rightarrow> int \<Rightarrow> string \<Rightarrow> bool \<Rightarrow> int \<Rightarrow> bool" where
  "should_announce self tid ts urgency stbl cooldown_ms =
     (if urgency = ''critical'' then True
      else if \<not> stbl then False
      else
        (case last_announced self tid of
           Some t \<Rightarrow> (let elapsed = ts - t in if elapsed < cooldown_ms then False else True)
         | None \<Rightarrow> True))"

definition record_announcement :: "FusionPolicy \<Rightarrow> int \<Rightarrow> int \<Rightarrow> FusionPolicy" where
  "record_announcement self tid ts =
     self\<lparr>last_announced := (last_announced self)(tid \<mapsto> ts),
          announcement_count := announcement_count self + 1\<rparr>"

section \<open>modules/navigation/spatial.py\<close>

definition analyze_direction :: "bbox \<Rightarrow> string" where
  "analyze_direction b =
     (case b of (x, y, w, h) \<Rightarrow>
        let center_x = rnd (x + rnd (w / 2))
        in if center_x < rnd (33 / 100) then ''left''
           else if center_x < rnd (66 / 100) then ''center''
           else ''right'')"

definition analyze_zone :: "bbox \<Rightarrow> string" where
  "analyze_zone b =
     (case b of (x, y, w, h) \<Rightarrow>
        let area = rnd (w * h)
        in if area > rnd (15 / 100) then ''near''
           else if area > rnd (5 / 100) then ''mid''
           else ''far'')"

definition analyze_movement :: "bbox \<Rightarrow> history_entry list \<Rightarrow> string" where
  "analyze_movement current_bbox hist =
     (if length hist < 2 then ''stationary''
      else
        let prev_bbox = h_bbox (last (butlast hist));
            current_area = (case current_bbox of (x, y, w, h) \<Rightarrow> rnd (w * h));
            prev_area = (case prev_bbox of (x, y, w, h) \<Rightarrow> rnd (w * h))
        in if current_area > rnd (prev_area * rnd (105 / 100)) then ''approaching''
           else if current_area < rnd (prev_area * rnd (95 / 100)) then ''receding''
           else ''stationary'')"

definition compute_urgency :: "string \<Rightarrow> string \<Rightarrow> string" where
  "compute_urgency zone movement =
     (if zone = ''near'' \<and> movement = ''approaching'' then ''critical''
      else if zone = ''near'' then ''high''
      else if zone = ''mid'' \<and> movement = ''approaching'' then ''medium''
      else ''low'')"

section \<open>core_platform: asyncio queues and the two buses\<close>

text \<open>
  An \<open>asyncio.Queue(maxsize)\<close> holds its items oldest first; \<open>maxsize \<le> 0\<close> means
  unbounded.  A queue of a bus holds \<open>Some item\<close> for a published item and \<open>None\<close> for the
  end-of-stream sentinel (Python's \<open>None\<close>).
\<close>

record 'a Queue =
  maxsize :: int
  items :: "'a list"

definition Queue_init :: "int \<Rightarrow> 'a Queue" where
  "Queue_init n = \<lparr>maxsize = n, items = []\<rparr>"

definition qsize :: "'a Queue \<Rightarrow> int" where
  "qsize q = int (length (items q))"

definition full :: "'a Queue \<Rightarrow> bool" where
  "full q = (if maxsize q \<le> 0 then False else qsize q \<ge> maxsize q)"

definition put_nowait :: "'a Queue \<Rightarrow> 'a \<Rightarrow> py_error + 'a Queue" where
  "put_nowait q x = (if full q then Inl QueueFull else Inr (q\<lparr>items := items q @ [x]\<rparr>))"

definition get_nowait :: "'a Queue \<Rightarrow> py_error + ('a \<times> 'a Queue)" where
  "get_nowait q = (case items q of [] \<Rightarrow> Inl QueueEmpty | x # xs \<Rightarrow> Inr (x, q\<lparr>items := xs\<rparr>))"

subsection \<open>core_platform/result_bus.py\<close>

record 'e ResultBus =
  rb_queue_size :: int
  rb_subscribers :: "'e option Queue list"
  event_count :: int

definition ResultBus_init :: "int \<Rightarrow> 'e ResultBus" where
  "ResultBus_init n = \<lparr>rb_queue_size = n, rb_subscribers = [], event_count = 0\<rparr>"

text \<open>The registration done by \<open>subscribe_all\<close> before it starts to consume.\<close>

definition ResultBus_subscribe :: "'e ResultBus \<Rightarrow> 'e ResultBus" where
  "ResultBus_subscribe self =
     self\<lparr>rb_subscribers := rb_subscribers self @ [Queue_init (rb_queue_size self)]\<rparr>"

definition ResultBus_publish :: "'e ResultBus \<Rightarrow> 'e \<Rightarrow> 'e ResultBus" where
  "ResultBus_publish self event =
     self\<lparr>event_count := event_count self + 1,
          rb_subscribers :=
            map (\<lambda>queue. case put_nowait queue (Some event) of
                            Inr queue' \<Rightarrow> queue'
                          | Inl e \<Rightarrow> queue)
                (rb_subscribers self)\<rparr>"

definition ResultBus_shutdown :: "'e ResultBus \<Rightarrow> 'e ResultBus" where
  "ResultBus_shutdown self =
     self\<lparr>rb_subscribers :=
            map (\<lambda>queue. case put_nowait queue None of
                            Inr queue' \<Rightarrow> queue'
                          | Inl e \<Rightarrow> queue)
                (rb_subscribers self)\<rparr>"

subsection \<open>core_platform/frame_bus.py\<close>

record 'f FrameBus =
  fb_queue_size :: int
  fb_subscribers :: "'f option Queue list"
  frame_count :: int
  dropped_count :: int

definition FrameBus_init :: "int \<Rightarrow> 'f FrameBus" where
  "FrameBus_init n =
     \<lparr>fb_queue_size = n, fb_subscribers = [], frame_count = 0, dropped_count = 0\<rparr>"

definition FrameBus_subscribe :: "'f FrameBus \<Rightarrow> 'f FrameBus" where
  "FrameBus_subscribe self =
     self\<lparr>fb_subscribers := fb_subscribers self @ [Queue_init (fb_queue_size self)]\<rparr>"

text \<open>The body of the loop of \<open>publish\<close> for one subscriber queue, with the drop counter.\<close>

definition FrameBus_publish_one ::
  "int \<Rightarrow> 'f \<Rightarrow> 'f option Queue \<times> int \<Rightarrow> 'f option Queue \<times> int" where
  "FrameBus_publish_one queue_size frame s =
     (case s of (queue, dropped) \<Rightarrow>
        let (queue, dropped) =
              (if qsize queue \<ge> queue_size
               then (case get_nowait queue of
                       Inr (old, queue') \<Rightarrow> (queue', dropped + 1)
                     | Inl e \<Rightarrow> (queue, dropped))
               else (queue, dropped))
        in case put_nowait queue (Some frame) of
             Inr queue' \<Rightarrow> (queue', dropped)
           | Inl e \<Rightarrow> (queue, dropped + 1))"

definition FrameBus_publish :: "'f FrameBus \<Rightarrow> 'f \<Rightarrow> 'f FrameBus" where
  "FrameBus_publish self frame =
     (let (queues, dropped) =
            fold (\<lambda>queue (done, dropped).
                    case FrameBus_publish_one (fb_queue_size self) frame (queue, dropped) of
                      (queue', dropped') \<Rightarrow> (done @ [queue'], dropped'))
                 (fb_subscribers self) ([], dropped_count self)
      in self\<lparr>frame_count := frame_count self + 1,
              fb_subscribers := queues, dropped_count := dropped\<rparr>)"

definition FrameBus_shutdown :: "'f FrameBus \<Rightarrow> 'f FrameBus" where
  "FrameBus_shutdown self =
     self\<lparr>fb_subscribers :=
            map (\<lambda>queue. case put_nowait queue None of
                            Inr queue' \<Rightarrow> queue'
                          | Inl e \<Rightarrow> queue)
                (fb_subscribers self)\<rparr>"

subsection \<open>core_platform/control_state.py\<close>

text \<open>
  \<open>update\<close> works on the attributes of the object by name (\<open>hasattr\<close>, \<open>setattr\<close>).
  The object is modelled by its instance dictionary (\<open>__dict__\<close>), a map from attribute names
  to values, together with the set \<open>cls\<close> of the names defined at class level (methods,
  defaults of the fields, what \<open>object\<close> and the dataclass decorator provide), which
  \<open>hasattr\<close> finds as well.  Three names are backed by descriptors of \<open>object\<close> that
  intercept the assignment: \<open>__class__\<close>, \<open>__dict__\<close> and \<open>__weakref__\<close>.  The values are
  the JSON values that the control endpoint of \<open>ui/server.py\<close> passes on as keyword values
  (\<open>control_state.update(**event.value)\<close>), and lock objects; no value is a class.
\<close>

datatype py_value =
  PyNone | PyBool bool | PyInt int | PyFloat real | PyStr string
  | PyList "py_value list" | PyDict "(string \<times> py_value) list" | PyLock









section \<open>The life of one track\<close>

text \<open>
  The operations the tracker performs on a \<open>Track\<close> object between its construction and its
  eviction: \<open>update\<close> (first by \<open>create_track\<close>, then by \<open>update_track\<close>) and
  \<open>mark_missed\<close> (by \<open>mark_missed_tracks\<close>).  Eviction deletes the object from the
  track table and does not write to it.
\<close>

datatype track_op = Update bbox int int | MarkMissed

fun apply_op :: "Track \<Rightarrow> track_op \<Rightarrow> Track" where
  "apply_op t (Update b fid ts) = Track_update t b fid ts"
| "apply_op t MarkMissed = mark_missed t"

definition run_ops :: "Track \<Rightarrow> track_op list \<Rightarrow> Track" where
  "run_ops t ops = foldl apply_op t ops"

fun is_update :: "track_op \<Rightarrow> bool" where
  "is_update (Update b fid ts) = True"
| "is_update MarkMissed = False"

text \<open>The number of updates at the end of a sequence of operations, since the last miss.\<close>

definition trailing_updates :: "track_op list \<Rightarrow> nat" where
  "trailing_updates ops = length (takeWhile is_update (rev ops))"

section \<open>Geometry named by the properties\<close>

text \<open>The area \<open>w * h\<close> of a box as the program computes it, and \<open>history[-2]["bbox"]\<close>.\<close>

definition bbox_area :: "bbox \<Rightarrow> real" where
  "bbox_area b = (case b of (x, y, w, h) \<Rightarrow> rnd (w * h))"

definition bbox_center_x :: "bbox \<Rightarrow> real" where
  "bbox_center_x b = (case b of (x, y, w, h) \<Rightarrow> rnd (x + rnd (w / 2)))"

definition nonneg_size :: "bbox \<Rightarrow> bool" where
  "nonneg_size b = (case b of (x, y, w, h) \<Rightarrow> 0 \<le> w \<and> 0 \<le> h)"

definition prev_bbox :: "history_entry list \<Rightarrow> bbox" where
  "prev_bbox hist = h_bbox (last (butlast hist))"

text \<open>
  Boxes in exact geometry: a box of positive area, two boxes whose interiors do not meet, and
  two boxes that both have area zero (so that their union has area zero).
\<close>

definition positive_area :: "bbox \<Rightarrow> bool" where
  "positive_area b = (case b of (x, y, w, h) \<Rightarrow> 0 < w \<and> 0 < h)"




section \<open>Candidate pairs of the matching\<close>

text \<open>
  The pairs in the order in which the nested loops generate them (detection list order outer,
  track map order inner), each with its IoU, and the property that makes an entry of the IoU
  matrix a candidate: it is the IoU of a detection and a track and reaches the threshold.
\<close>

definition candidate_pairs ::
  "(int \<times> bbox) list \<Rightarrow> (int \<times> bbox) list \<Rightarrow> real \<Rightarrow> ((int \<times> int) \<times> real) list" where
  "candidate_pairs detections trks iou_threshold =
     concat (map (\<lambda>(det_idx, det_bbox).
                    map (\<lambda>(track_id, track_bbox). ((det_idx, track_id), compute_iou det_bbox track_bbox))
                        (filter (\<lambda>(track_id, track_bbox). compute_iou det_bbox track_bbox \<ge> iou_threshold)
                                trks))
                 detections)"

definition valid_entry ::
  "(int \<times> bbox) list \<Rightarrow> (int \<times> bbox) list \<Rightarrow> real \<Rightarrow> (int \<times> int) \<times> real \<Rightarrow> bool" where
  "valid_entry detections trks thr e \<longleftrightarrow>
     (\<exists>db tb. (fst (fst e), db) \<in> set detections \<and> (snd (fst e), tb) \<in> set trks \<and>
              snd e = compute_iou db tb \<and> thr \<le> compute_iou db tb)"

section \<open>The tracker's table and the matching of one cycle\<close>

text \<open>
  The invariant of the track table: ids are distinct, each track is stored under its own id,
  and every id in use is below \<open>next_track_id\<close>.  \<open>cycle_matching\<close> is the call of
  \<open>match_detections_to_tracks\<close> that \<open>_process_detections\<close> makes for one event.
\<close>

definition tracker_ok :: "Tracker \<Rightarrow> bool" where
  "tracker_ok tr \<longleftrightarrow>
     distinct (map fst (tracks tr)) \<and>
     (\<forall>(i, t) \<in> set (tracks tr). track_id t = i \<and> i < next_track_id tr)"

definition cycle_matching ::
  "(int list \<Rightarrow> int list) \<Rightarrow> real \<Rightarrow> Tracker \<Rightarrow> DetectionResult
     \<Rightarrow> (int \<times> int) list \<times> int list \<times> int list" where
  "cycle_matching list_of thr tr event =
     match_detections_to_tracks list_of
       (map (\<lambda>(idx, det). (idx, det_bbox det)) (enumerate_py (objects event)))
       (get_active_tracks tr) thr"

section \<open>Properties of rounding\<close>

lemma ilog2_up_bounds: "1 \<le> x \<Longrightarrow> 2 ^ ilog2_up x \<le> x \<and> x < 2 ^ Suc (ilog2_up x)"
proof (induction x rule: ilog2_up.induct)
  case (1 x)
  show ?case
  proof (cases "x < 2")
    case True
    then have "ilog2_up x = 0" by (simp add: ilog2_up.simps [of x])
    then show ?thesis using True "1.prems" by simp
  next
    case False
    then have eq: "ilog2_up x = Suc (ilog2_up (x / 2))" by (simp add: ilog2_up.simps [of x])
    from False have "1 \<le> x / 2" by simp
    from "1.IH" [OF False this] show ?thesis by (simp add: eq)
  qed
qed

lemma ilog2_down_bounds:
  "0 < x \<Longrightarrow> x < 1 \<Longrightarrow> 1 \<le> x * 2 ^ ilog2_down x \<and> x * 2 ^ ilog2_down x < 2"
proof (induction x rule: ilog2_down.induct)
  case (1 x)
  from "1.prems" have c: "\<not> (x \<le> 0 \<or> 1 \<le> x)" by simp
  then have eq: "ilog2_down x = Suc (ilog2_down (2 * x))" by (simp add: ilog2_down.simps [of x])
  show ?case
  proof (cases "2 * x < 1")
    case True
    from "1.IH" [OF c _ True] "1.prems" show ?thesis by (simp add: eq mult_ac)
  next
    case False
    then have "ilog2_down (2 * x) = 0" by (simp add: ilog2_down.simps [of "2 * x"])
    then show ?thesis using False "1.prems" by (simp add: eq)
  qed
qed

lemma ilog2_bounds:
  assumes "0 < x"
  shows "2 powi ilog2 x \<le> x" and "x < 2 powi (ilog2 x + 1)"
proof -
  have "2 powi ilog2 x \<le> x \<and> x < 2 powi (ilog2 x + 1)"
  proof (cases "1 \<le> x")
    case True
    then have "ilog2 x = int (ilog2_up x)" by (simp add: ilog2_def)
    moreover have "int (ilog2_up x) + 1 = int (Suc (ilog2_up x))" by simp
    ultimately show ?thesis using ilog2_up_bounds [OF True]
      by (simp only: power_int_of_nat)
  next
    case False
    then have x1: "x < 1" by simp
    define k where "k = ilog2_down x"
    have il: "ilog2 x = - int k" using False by (simp add: ilog2_def k_def)
    from ilog2_down_bounds [OF assms x1] have b: "1 \<le> x * 2 ^ k" "x * 2 ^ k < 2"
      by (simp_all add: k_def)
    have p: "(2::real) powi (- int k) = 1 / 2 ^ k"
      by (simp add: power_int_minus_divide)
    have "(2::real) powi (- int k + 1) = 2 powi (- int k) * 2"
      by (rule power_int_add_1) simp
    then have q: "(2::real) powi (- int k + 1) = 2 / 2 ^ k"
      by (simp only: p)
    show ?thesis unfolding il p q using b by (simp add: field_simps)
  qed
  then show "2 powi ilog2 x \<le> x" and "x < 2 powi (ilog2 x + 1)" by simp_all
qed

lemma ilog2_mono:
  assumes "0 < x" "x \<le> y"
  shows "ilog2 x \<le> ilog2 y"
proof (rule ccontr)
  assume "\<not> ilog2 x \<le> ilog2 y"
  then have "ilog2 y + 1 \<le> ilog2 x" by simp
  then have "(2::real) powi (ilog2 y + 1) \<le> 2 powi ilog2 x"
    by (intro power_int_increasing) simp_all
  moreover have "y < 2 powi (ilog2 y + 1)" using assms by (intro ilog2_bounds) simp
  moreover have "2 powi ilog2 x \<le> x" using assms by (intro ilog2_bounds)
  ultimately show False using assms by simp
qed

lemma round_half_even_range:
  "round_half_even x = \<lfloor>x\<rfloor> \<or> round_half_even x = \<lfloor>x\<rfloor> + 1"
  by (simp add: round_half_even_def Let_def)

lemma round_half_even_of_int [simp]: "round_half_even (of_int n) = n"
  by (simp add: round_half_even_def)

lemma round_half_even_mono:
  assumes "x \<le> y"
  shows "round_half_even x \<le> round_half_even y"
proof (cases "\<lfloor>x\<rfloor> = \<lfloor>y\<rfloor>")
  case True
  then show ?thesis using assms by (auto simp: round_half_even_def Let_def)
next
  case False
  with assms have "\<lfloor>x\<rfloor> + 1 \<le> \<lfloor>y\<rfloor>" using floor_mono [OF assms] by simp
  moreover have "round_half_even x \<le> \<lfloor>x\<rfloor> + 1" using round_half_even_range [of x] by auto
  moreover have "\<lfloor>y\<rfloor> \<le> round_half_even y" using round_half_even_range [of y] by auto
  ultimately show ?thesis by simp
qed

lemma round_half_even_minus: "round_half_even (- x) = - round_half_even x"
proof (cases "x = of_int \<lfloor>x\<rfloor>")
  case True
  then have "round_half_even (- (of_int \<lfloor>x\<rfloor> :: real)) = - round_half_even (of_int \<lfloor>x\<rfloor>)"
    by (metis of_int_minus round_half_even_of_int)
  with True show ?thesis by simp
next
  case False
  then have fl: "\<lfloor>- x\<rfloor> = - \<lfloor>x\<rfloor> - 1"
  proof -
    from False have "\<lceil>x\<rceil> = \<lfloor>x\<rfloor> + 1" by (simp add: ceiling_altdef)
    moreover have "\<lfloor>- x\<rfloor> = - \<lceil>x\<rceil>" by (simp add: ceiling_def)
    ultimately show ?thesis by simp
  qed
  show ?thesis using False
    by (auto simp: round_half_even_def Let_def fl)
qed


lemma ulp_exp_mono: "0 < x \<Longrightarrow> x \<le> y \<Longrightarrow> ulp_exp x \<le> ulp_exp y"
  using ilog2_mono [of "\<bar>x\<bar>" "\<bar>y\<bar>"] by (simp add: ulp_exp_def)

lemma rnd_nonneg: "0 \<le> x \<Longrightarrow> 0 \<le> rnd x"
proof -
  assume "0 \<le> x"
  then have "0 \<le> x / 2 powi ulp_exp x" by simp
  then have "round_half_even 0 \<le> round_half_even (x / 2 powi ulp_exp x)"
    by (rule round_half_even_mono)
  moreover have "round_half_even 0 = 0" using round_half_even_of_int [of 0] by simp
  ultimately show ?thesis by (simp add: rnd_def Let_def)
qed

lemma rnd_mono_pos:
  assumes "0 < x" "x \<le> y"
  shows "rnd x \<le> rnd y"
proof -
  define ex where "ex = ulp_exp x"
  define ey where "ey = ulp_exp y"
  have y: "0 < y" using assms by simp
  have rx: "rnd x = of_int (round_half_even (x / 2 powi ex)) * 2 powi ex"
    using assms by (simp add: rnd_def ex_def Let_def)
  have ry: "rnd y = of_int (round_half_even (y / 2 powi ey)) * 2 powi ey"
    using y by (simp add: rnd_def ey_def Let_def)
  have le: "ex \<le> ey" unfolding ex_def ey_def using assms by (rule ulp_exp_mono)
  show ?thesis
  proof (cases "ex = ey")
    case True
    have "x / 2 powi ey \<le> y / 2 powi ey" using assms by (simp add: divide_right_mono)
    then have "round_half_even (x / 2 powi ey) \<le> round_half_even (y / 2 powi ey)"
      by (rule round_half_even_mono)
    then show ?thesis unfolding rx ry True by (simp add: mult_right_mono)
  next
    case False
    with le have lt: "ex < ey" by simp
    have ex_ge: "ilog2 x - 52 \<le> ex" using assms by (simp add: ex_def ulp_exp_def)
    have "- 1074 \<le> ex" by (simp add: ex_def ulp_exp_def)
    with lt have ey_eq: "ey = ilog2 y - 52" using y by (simp add: ey_def ulp_exp_def max_def split: if_splits)
    define B :: real where "B = 2 powi (ey + 52)"
    define N :: int where "N = 2 ^ nat (ey + 52 - ex)"
    have Bpos: "0 < B" by (simp add: B_def)
    have "ilog2 x + 1 \<le> ilog2 y" using ex_ge lt ey_eq by simp
    then have "(2::real) powi (ilog2 x + 1) \<le> 2 powi ilog2 y"
      by (intro power_int_increasing) simp_all
    moreover have "x < 2 powi (ilog2 x + 1)" using assms by (intro ilog2_bounds) 
    ultimately have xB: "x \<le> B" by (simp add: B_def ey_eq)
    have yB: "B \<le> y" using ilog2_bounds(1) [OF y] by (simp add: B_def ey_eq)
    have BN: "B / 2 powi ex = of_int N"
    proof -
      have "B / 2 powi ex = 2 powi (ey + 52 - ex)"
        unfolding B_def by (simp add: power_int_diff)
      also have "\<dots> = 2 ^ nat (ey + 52 - ex)" using lt by (simp add: power_int_nonneg_exp)
      finally show ?thesis by (simp add: N_def)
    qed
    define P :: int where "P = 2 ^ 52"
    have B52: "B / 2 powi ey = of_int P"
    proof -
      have "(2::real) powi (ey + 52) = 2 powi ey * 2 powi 52" by (simp add: power_int_add)
      then show ?thesis by (simp add: B_def P_def)
    qed
    have "x / 2 powi ex \<le> B / 2 powi ex" using xB by (simp add: divide_right_mono)
    then have "round_half_even (x / 2 powi ex) \<le> round_half_even (of_int N :: real)"
      unfolding BN by (rule round_half_even_mono)
    then have "of_int (round_half_even (x / 2 powi ex)) * 2 powi ex \<le> (of_int N :: real) * 2 powi ex"
      by (simp add: mult_right_mono)
    also have "\<dots> = B" using BN by (simp add: field_simps)
    finally have 1: "rnd x \<le> B" unfolding rx .
    have "B / 2 powi ey \<le> y / 2 powi ey" using yB by (simp add: divide_right_mono)
    then have "round_half_even (of_int P :: real) \<le> round_half_even (y / 2 powi ey)"
      unfolding B52 by (rule round_half_even_mono)
    then have "P \<le> round_half_even (y / 2 powi ey)" by (simp only: round_half_even_of_int)
    then have "(of_int P :: real) \<le> of_int (round_half_even (y / 2 powi ey))"
      by (simp only: of_int_le_iff)
    then have "(of_int P :: real) * 2 powi ey \<le> of_int (round_half_even (y / 2 powi ey)) * 2 powi ey"
      by (rule mult_right_mono) simp
    moreover have "(of_int P :: real) * 2 powi ey = B" using B52 by (simp add: field_simps)
    ultimately have 2: "B \<le> rnd y" unfolding ry by simp
    from 1 2 show ?thesis by simp
  qed
qed

lemma rnd_minus: "rnd (- x) = - rnd x"
  by (simp add: rnd_def ulp_exp_def Let_def round_half_even_minus)

lemma rnd_0 [simp]: "rnd 0 = 0"
  by (simp add: rnd_def)

lemma rnd_mono:
  assumes "x \<le> y"
  shows "rnd x \<le> rnd y"
proof -
  consider "0 < x" | "x \<le> 0" "0 \<le> y" | "y < 0" by linarith
  then show ?thesis
  proof cases
    case 1
    then show ?thesis using assms by (rule rnd_mono_pos)
  next
    case 2
    from 2(1) have "0 \<le> rnd (- x)" by (intro rnd_nonneg) simp
    then have "rnd x \<le> 0" by (simp add: rnd_minus)
    also have "0 \<le> rnd y" using 2(2) by (rule rnd_nonneg)
    finally show ?thesis .
  next
    case 3
    then have "rnd (- y) \<le> rnd (- x)" using assms by (intro rnd_mono_pos) simp_all
    then show ?thesis by (simp add: rnd_minus)
  qed
qed










section \<open>Properties of the fusion policy\<close>

text \<open>
  Claim C4.  \<open>should_announce\<close> announces every critical guidance, whatever the stability
  and the cooldown; a non-critical guidance of an unstable track is never announced; a
  non-critical guidance of a stable track is suppressed when an announcement is recorded for
  the track and less than \<open>cooldown_ms\<close> have elapsed since; in every remaining case it is
  announced.
\<close>

theorem should_announce_cases:
  "(urgency = ''critical'' \<longrightarrow> should_announce p tid ts urgency stbl cd) \<and>
   (urgency \<noteq> ''critical'' \<and> \<not> stbl \<longrightarrow> \<not> should_announce p tid ts urgency stbl cd) \<and>
   (urgency \<noteq> ''critical'' \<and> stbl \<and> (\<exists>t. last_announced p tid = Some t \<and> ts - t < cd)
      \<longrightarrow> \<not> should_announce p tid ts urgency stbl cd) \<and>
   (urgency \<noteq> ''critical'' \<and> stbl \<and> \<not> (\<exists>t. last_announced p tid = Some t \<and> ts - t < cd)
      \<longrightarrow> should_announce p tid ts urgency stbl cd)"
  by (auto simp: should_announce_def Let_def split: option.splits)

theorem should_announce_cases_witness:
  "should_announce FusionPolicy_init 1 0 ''critical'' False 0 \<and>
   \<not> should_announce FusionPolicy_init 1 0 ''low'' False 0 \<and>
   \<not> should_announce (record_announcement FusionPolicy_init 1 1000) 1 2000 ''high'' True 3000 \<and>
   should_announce (record_announcement FusionPolicy_init 1 1000) 1 4000 ''high'' True 3000"
  using should_announce_cases [of "''critical''" FusionPolicy_init 1 0 False 0]
        should_announce_cases [of "''low''" FusionPolicy_init 1 0 False 0]
        should_announce_cases [of "''high''" "record_announcement FusionPolicy_init 1 1000" 1 2000 True 3000]
        should_announce_cases [of "''high''" "record_announcement FusionPolicy_init 1 1000" 1 4000 True 3000]
  by (simp add: record_announcement_def FusionPolicy_init_def)

section \<open>Properties of the result bus\<close>

text \<open>
  Claim C7.  \<open>ResultBus.publish\<close> leaves a full subscriber queue exactly as it was (the new
  event is dropped for that subscriber), appends the event at the end of a queue that is not
  full, and in both cases keeps the queue's former content as a prefix of the new content:
  no older event is evicted and the order of the retained events is unchanged.
\<close>

theorem result_bus_publish_drops_newest:
  "length (rb_subscribers (ResultBus_publish bus ev)) = length (rb_subscribers bus) \<and>
   (\<forall>i < length (rb_subscribers bus).
      (full (rb_subscribers bus ! i)
         \<longrightarrow> rb_subscribers (ResultBus_publish bus ev) ! i = rb_subscribers bus ! i) \<and>
      (\<not> full (rb_subscribers bus ! i)
         \<longrightarrow> rb_subscribers (ResultBus_publish bus ev) ! i
               = (rb_subscribers bus ! i)\<lparr>items := items (rb_subscribers bus ! i) @ [Some ev]\<rparr>) \<and>
      prefix (items (rb_subscribers bus ! i)) (items (rb_subscribers (ResultBus_publish bus ev) ! i)))"
  by (simp add: ResultBus_publish_def put_nowait_def)

theorem result_bus_publish_drops_newest_witness:
  "rb_subscribers (ResultBus_publish
      \<lparr>rb_queue_size = 1,
       rb_subscribers = [\<lparr>maxsize = 1, items = [Some (7::nat)]\<rparr>, \<lparr>maxsize = 1, items = []\<rparr>],
       event_count = 1\<rparr> 8)
   = [\<lparr>maxsize = 1, items = [Some 7]\<rparr>, \<lparr>maxsize = 1, items = [Some 8]\<rparr>]"
  using result_bus_publish_drops_newest
          [of "\<lparr>rb_queue_size = 1,
                rb_subscribers = [\<lparr>maxsize = 1, items = [Some (7::nat)]\<rparr>, \<lparr>maxsize = 1, items = []\<rparr>],
                event_count = 1\<rparr>" 8]
  by (simp add: full_def qsize_def ResultBus_publish_def put_nowait_def)

section \<open>Properties of the control state\<close>








section \<open>Properties of a track\<close>

lemma run_ops_snoc: "run_ops t (ops @ [op]) = apply_op (run_ops t ops) op"
  by (simp add: run_ops_def)

lemma trailing_updates_snoc:
  "trailing_updates (ops @ [op]) = (if is_update op then Suc (trailing_updates ops) else 0)"
  by (simp add: trailing_updates_def)

lemma apply_op_hits:
  "consecutive_hits (apply_op t op) = (if is_update op then consecutive_hits t + 1 else 0)"
  by (cases op) (simp_all add: Track_update_def mark_missed_def Let_def)

lemma apply_op_stable:
  "stable (apply_op t op) \<longleftrightarrow> stable t \<or> (is_update op \<and> 2 \<le> consecutive_hits t)"
  by (cases op) (auto simp: Track_update_def mark_missed_def Let_def)

lemma run_ops_hits:
  "consecutive_hits (run_ops (Track_init tid lbl b) ops) = int (trailing_updates ops)"
  by (induction ops rule: rev_induct)
     (simp_all add: run_ops_snoc trailing_updates_snoc apply_op_hits,
      simp add: run_ops_def Track_init_def trailing_updates_def)

lemma run_ops_stable_mono: "stable t \<Longrightarrow> stable (run_ops t ops)"
  by (induction ops rule: rev_induct)
     (simp_all add: run_ops_snoc apply_op_stable, simp add: run_ops_def)

lemma ex_prefix_snoc:
  "(\<exists>n \<le> length (ops @ [op]). P (take n (ops @ [op]))) \<longleftrightarrow>
   (\<exists>n \<le> length ops. P (take n ops)) \<or> P (ops @ [op])"
  by (auto simp: le_Suc_eq)

lemma run_ops_stable_iff:
  "stable (run_ops (Track_init tid lbl b) ops) \<longleftrightarrow>
     (\<exists>n \<le> length ops. 3 \<le> trailing_updates (take n ops))"
proof (induction ops rule: rev_induct)
  case Nil
  show ?case by (simp add: run_ops_def Track_init_def trailing_updates_def)
next
  case (snoc op ops)
  have "stable (run_ops (Track_init tid lbl b) (ops @ [op])) \<longleftrightarrow>
        stable (run_ops (Track_init tid lbl b) ops) \<or> (is_update op \<and> 2 \<le> trailing_updates ops)"
    by (simp add: run_ops_snoc apply_op_stable run_ops_hits)
  also have "\<dots> \<longleftrightarrow> (\<exists>n \<le> length ops. 3 \<le> trailing_updates (take n ops))
                   \<or> 3 \<le> trailing_updates (ops @ [op])"
    by (auto simp: snoc.IH trailing_updates_snoc)
  finally show ?case unfolding ex_prefix_snoc [of ops op "\<lambda>xs. 3 \<le> trailing_updates xs"] .
qed

text \<open>
  Claim C1.  Start from a freshly constructed track and apply any sequence of updates and
  misses (the first update being the one \<open>create_track\<close> performs).  The track is stable
  exactly when some prefix of the sequence ends with at least three updates in a row, that
  is, \<open>stable\<close> becomes true at the third update of a run of consecutive updates and not
  before; \<open>consecutive_hits\<close> is the length of the current run; and a stable track stays
  stable under every single operation and every further sequence of operations, misses
  included: no operation resets the flag.
\<close>

theorem track_stable_third_update:
  "(stable (run_ops (Track_init tid lbl b) ops) \<longleftrightarrow>
      (\<exists>n \<le> length ops. 3 \<le> trailing_updates (take n ops))) \<and>
   consecutive_hits (run_ops (Track_init tid lbl b) ops) = int (trailing_updates ops) \<and>
   (stable t \<longrightarrow> stable (apply_op t op) \<and> stable (run_ops t later))"
  using run_ops_stable_iff [of tid lbl b ops] run_ops_hits [of tid lbl b ops]
        run_ops_stable_mono [of t later] apply_op_stable [of t op]
  by simp

theorem track_stable_third_update_witness:
  "\<not> stable (run_ops (Track_init 1 ''person'' (0, 0, 1, 1))
               [Update (0, 0, 1, 1) 1 33, Update (0, 0, 1, 1) 2 66]) \<and>
   stable (run_ops (Track_init 1 ''person'' (0, 0, 1, 1))
             [Update (0, 0, 1, 1) 1 33, Update (0, 0, 1, 1) 2 66, Update (0, 0, 1, 1) 3 99]) \<and>
   stable (run_ops (run_ops (Track_init 1 ''person'' (0, 0, 1, 1))
             [Update (0, 0, 1, 1) 1 33, Update (0, 0, 1, 1) 2 66, Update (0, 0, 1, 1) 3 99])
             [MarkMissed, MarkMissed])"
  using track_stable_third_update [of 1 "''person''" "(0, 0, 1, 1)"
          "[Update (0, 0, 1, 1) 1 33, Update (0, 0, 1, 1) 2 66]"]
        track_stable_third_update [of 1 "''person''" "(0, 0, 1, 1)"
          "[Update (0, 0, 1, 1) 1 33, Update (0, 0, 1, 1) 2 66, Update (0, 0, 1, 1) 3 99]"
          "run_ops (Track_init 1 ''person'' (0, 0, 1, 1))
             [Update (0, 0, 1, 1) 1 33, Update (0, 0, 1, 1) 2 66, Update (0, 0, 1, 1) 3 99]"
          MarkMissed "[MarkMissed, MarkMissed]"]
  by (simp add: run_ops_def Track_init_def Track_update_def mark_missed_def Let_def)

section \<open>Properties of the spatial analysis\<close>

text \<open>The equations that evaluate \<open>rnd\<close> on a numeral.\<close>

lemmas rnd_eval = rnd_def ulp_exp_def ilog2_def ilog2_down.simps ilog2_up.simps
  round_half_even_def Let_def power_int_minus

lemma rnd_scaled_le:
  assumes "0 \<le> a" "c \<le> d"
  shows "rnd (a * rnd c) \<le> rnd (a * rnd d)"
  by (intro rnd_mono mult_left_mono assms)

lemma analyze_movement_approaching:
  "analyze_movement b hist = ''approaching'' \<longleftrightarrow>
     2 \<le> length hist \<and> bbox_area b > rnd (bbox_area (prev_bbox hist) * rnd (105 / 100))"
  by (auto simp: analyze_movement_def bbox_area_def prev_bbox_def Let_def split: prod.splits)

lemma analyze_movement_receding:
  assumes "nonneg_size (prev_bbox hist)"
  shows "analyze_movement b hist = ''receding'' \<longleftrightarrow>
     2 \<le> length hist \<and> bbox_area b < rnd (bbox_area (prev_bbox hist) * rnd (95 / 100))"
proof -
  have "0 \<le> bbox_area (prev_bbox hist)"
    using assms by (auto simp: bbox_area_def nonneg_size_def intro!: rnd_nonneg split: prod.splits)
  then have "rnd (bbox_area (prev_bbox hist) * rnd (95 / 100))
             \<le> rnd (bbox_area (prev_bbox hist) * rnd (105 / 100))"
    by (rule rnd_scaled_le) simp
  then show ?thesis
    by (auto simp: analyze_movement_def bbox_area_def prev_bbox_def Let_def split: prod.splits)
qed

lemma analyze_movement_stationary:
  "analyze_movement b hist = ''stationary'' \<longleftrightarrow>
     analyze_movement b hist \<noteq> ''approaching'' \<and> analyze_movement b hist \<noteq> ''receding''"
  by (auto simp: analyze_movement_def Let_def)

lemma analyze_movement_short: "length hist < 2 \<Longrightarrow> analyze_movement b hist = ''stationary''"
  by (simp add: analyze_movement_def)

lemma compute_urgency_cases:
  "compute_urgency zone movement = ''critical'' \<longleftrightarrow> zone = ''near'' \<and> movement = ''approaching''"
  "compute_urgency zone movement = ''high'' \<longleftrightarrow> zone = ''near'' \<and> movement \<noteq> ''approaching''"
  "compute_urgency zone movement = ''medium'' \<longleftrightarrow> zone = ''mid'' \<and> movement = ''approaching''"
  "compute_urgency zone movement = ''low'' \<longleftrightarrow>
      zone \<noteq> ''near'' \<and> \<not> (zone = ''mid'' \<and> movement = ''approaching'')"
  by (simp_all add: compute_urgency_def)

lemma analyze_zone_cases:
  "analyze_zone b = ''near'' \<longleftrightarrow> bbox_area b > rnd (15 / 100)"
  "analyze_zone b = ''mid'' \<longleftrightarrow> \<not> bbox_area b > rnd (15 / 100) \<and> bbox_area b > rnd (5 / 100)"
  "analyze_zone b = ''far'' \<longleftrightarrow> \<not> bbox_area b > rnd (15 / 100) \<and> \<not> bbox_area b > rnd (5 / 100)"
  by (auto simp: analyze_zone_def bbox_area_def Let_def split: prod.splits)

lemma analyze_direction_cases:
  "analyze_direction b = ''left'' \<longleftrightarrow> bbox_center_x b < rnd (33 / 100)"
  "analyze_direction b = ''center'' \<longleftrightarrow>
      \<not> bbox_center_x b < rnd (33 / 100) \<and> bbox_center_x b < rnd (66 / 100)"
  "analyze_direction b = ''right'' \<longleftrightarrow>
      \<not> bbox_center_x b < rnd (33 / 100) \<and> \<not> bbox_center_x b < rnd (66 / 100)"
  by (auto simp: analyze_direction_def bbox_center_x_def Let_def split: prod.splits)

text \<open>
  Claim C5.  With fewer than two history entries the movement is stationary.  Otherwise the
  current area is compared with the area of the second-most-recent entry: the movement is
  approaching exactly when the current area is greater than 1.05 times that area, receding
  exactly when it is smaller than 0.95 times that area (for a previous box of non-negative
  width and height), and stationary exactly when it is neither.  The urgency is critical
  exactly for a near zone and an approaching movement, high exactly for a near zone and any
  other movement, medium exactly for a mid zone and an approaching movement, and low in every
  other case.  Zones are classed by the area thresholds 0.15 and 0.05, directions by the
  thresholds 0.33 and 0.66 on the x coordinate of the centre.  Products and thresholds are
  the floats the program computes.
\<close>

theorem movement_and_urgency:
  "(length hist < 2 \<longrightarrow> analyze_movement b hist = ''stationary'') \<and>
   (analyze_movement b hist = ''approaching'' \<longleftrightarrow>
      2 \<le> length hist \<and> bbox_area b > rnd (bbox_area (prev_bbox hist) * rnd (105 / 100))) \<and>
   (nonneg_size (prev_bbox hist) \<longrightarrow>
      (analyze_movement b hist = ''receding'' \<longleftrightarrow>
         2 \<le> length hist \<and> bbox_area b < rnd (bbox_area (prev_bbox hist) * rnd (95 / 100)))) \<and>
   (analyze_movement b hist = ''stationary'' \<longleftrightarrow>
      analyze_movement b hist \<noteq> ''approaching'' \<and> analyze_movement b hist \<noteq> ''receding'') \<and>
   (compute_urgency zone movement = ''critical'' \<longleftrightarrow> zone = ''near'' \<and> movement = ''approaching'') \<and>
   (compute_urgency zone movement = ''high'' \<longleftrightarrow> zone = ''near'' \<and> movement \<noteq> ''approaching'') \<and>
   (compute_urgency zone movement = ''medium'' \<longleftrightarrow> zone = ''mid'' \<and> movement = ''approaching'') \<and>
   (compute_urgency zone movement = ''low'' \<longleftrightarrow>
      zone \<noteq> ''near'' \<and> \<not> (zone = ''mid'' \<and> movement = ''approaching'')) \<and>
   (analyze_zone b = ''near'' \<longleftrightarrow> bbox_area b > rnd (15 / 100)) \<and>
   (analyze_zone b = ''mid'' \<longleftrightarrow> \<not> bbox_area b > rnd (15 / 100) \<and> bbox_area b > rnd (5 / 100)) \<and>
   (analyze_zone b = ''far'' \<longleftrightarrow> \<not> bbox_area b > rnd (15 / 100) \<and> \<not> bbox_area b > rnd (5 / 100)) \<and>
   (analyze_direction b = ''left'' \<longleftrightarrow> bbox_center_x b < rnd (33 / 100)) \<and>
   (analyze_direction b = ''center'' \<longleftrightarrow>
      \<not> bbox_center_x b < rnd (33 / 100) \<and> bbox_center_x b < rnd (66 / 100)) \<and>
   (analyze_direction b = ''right'' \<longleftrightarrow>
      \<not> bbox_center_x b < rnd (33 / 100) \<and> \<not> bbox_center_x b < rnd (66 / 100))"
  by (intro conjI impI analyze_movement_short analyze_movement_approaching
        analyze_movement_receding analyze_movement_stationary compute_urgency_cases
        analyze_zone_cases analyze_direction_cases)

theorem movement_and_urgency_witness:
  "nonneg_size (prev_bbox
     [\<lparr>h_bbox = (0, 0, 1 / 4, 1 / 4), h_frame_id = 1, h_timestamp_ms = 33\<rparr>,
      \<lparr>h_bbox = (0, 0, 1 / 2, 1 / 2), h_frame_id = 2, h_timestamp_ms = 66\<rparr>]) \<and>
   analyze_movement (0, 0, 1 / 2, 1 / 2)
     [\<lparr>h_bbox = (0, 0, 1 / 4, 1 / 4), h_frame_id = 1, h_timestamp_ms = 33\<rparr>,
      \<lparr>h_bbox = (0, 0, 1 / 2, 1 / 2), h_frame_id = 2, h_timestamp_ms = 66\<rparr>] = ''approaching'' \<and>
   analyze_movement (0, 0, 1 / 2, 1 / 2)
     [\<lparr>h_bbox = (0, 0, 1 / 2, 1 / 2), h_frame_id = 2, h_timestamp_ms = 66\<rparr>] = ''stationary'' \<and>
   analyze_zone (0, 0, 1 / 2, 1 / 2) = ''near'' \<and>
   analyze_direction (0, 0, 1 / 2, 1 / 2) = ''left'' \<and>
   compute_urgency ''near'' ''approaching'' = ''critical''"
  using movement_and_urgency [of
     "[\<lparr>h_bbox = (0, 0, 1 / 4, 1 / 4), h_frame_id = 1, h_timestamp_ms = 33\<rparr>,
       \<lparr>h_bbox = (0, 0, 1 / 2, 1 / 2), h_frame_id = 2, h_timestamp_ms = 66\<rparr>]"
     "(0, 0, 1 / 2, 1 / 2)" "''near''" "''approaching''"]
    movement_and_urgency [of
     "[\<lparr>h_bbox = (0, 0, 1 / 2, 1 / 2), h_frame_id = 2, h_timestamp_ms = 66\<rparr>]"
     "(0, 0, 1 / 2, 1 / 2)" "''near''" "''approaching''"]
  by (simp add: nonneg_size_def prev_bbox_def bbox_area_def bbox_center_x_def rnd_eval)

section \<open>Shutdown of the buses\<close>

text \<open>
  Claim C6.  \<open>shutdown\<close> offers the sentinel to every subscriber queue with
  \<open>put_nowait\<close> and swallows \<open>QueueFull\<close>: it evicts nothing.  A frame bus of queue size
  2 with one subscriber that has not yet consumed the two frames published, and a result bus
  of queue size 1 with one unconsumed event, are shut down with their queues unchanged: the
  sentinel \<open>None\<close> is in neither queue.
\<close>

theorem shutdown_skips_full_queue:
  "fb_subscribers (FrameBus_shutdown
      (FrameBus_publish (FrameBus_publish (FrameBus_subscribe (FrameBus_init 2)) (1::nat)) 2))
     = [\<lparr>maxsize = 2, items = [Some 1, Some 2]\<rparr>] \<and>
   rb_subscribers (ResultBus_shutdown
      (ResultBus_publish (ResultBus_subscribe (ResultBus_init 1)) (1::nat)))
     = [\<lparr>maxsize = 1, items = [Some 1]\<rparr>]"
  by (simp add: FrameBus_shutdown_def FrameBus_publish_def FrameBus_publish_one_def
        FrameBus_subscribe_def FrameBus_init_def ResultBus_shutdown_def ResultBus_publish_def
        ResultBus_subscribe_def ResultBus_init_def Queue_init_def put_nowait_def get_nowait_def
        full_def qsize_def)

section \<open>Properties of the intersection over union\<close>










text \<open>
  Positive area alone is not enough.  When \<open>w\<close> is so small against \<open>x\<close> that \<open>x + w\<close>
  rounds to \<open>x\<close>, the program sees an empty intersection of the box with itself and
  returns 0.
\<close>

lemma compute_iou_self_vanishes:
  "positive_area (1 / 2, 1 / 2, 1 / 2 ^ 60, 1 / 2 ^ 60) \<and>
   bbox_floats (1 / 2, 1 / 2, 1 / 2 ^ 60, 1 / 2 ^ 60) \<and>
   compute_iou (1 / 2, 1 / 2, 1 / 2 ^ 60, 1 / 2 ^ 60) (1 / 2, 1 / 2, 1 / 2 ^ 60, 1 / 2 ^ 60) = 0"
proof -
  have s: "rnd (1 / 2 + 1 / 2 ^ 60) = 1 / 2" by (simp add: rnd_eval)
  have f: "rnd (1 / 2 ^ 60) = 1 / 2 ^ 60" "rnd (1 / 2) = 1 / 2" by (simp_all add: rnd_eval)
  have "compute_iou (1 / 2, 1 / 2, 1 / 2 ^ 60, 1 / 2 ^ 60) (1 / 2, 1 / 2, 1 / 2 ^ 60, 1 / 2 ^ 60) = 0"
    unfolding compute_iou_def compute_iou_with_def prod.case Let_def max.idem min.idem s
    by simp
  then show ?thesis
    using f by (simp add: positive_area_def bbox_floats_def is_float_def)
qed


section \<open>Properties of the matching\<close>

lemma update_new_key: "k \<notin> fst ` set al \<Longrightarrow> AList.update k v al = al @ [(k, v)]"
  by (induction al) auto

lemma greedy_matching_snoc: "greedy_matching (ps @ [p]) = greedy_step p (greedy_matching ps)"
  by (simp add: greedy_matching_def)

lemma greedy_inv:
  "case greedy_matching ps of (m, md, mt) \<Rightarrow>
     md = fst ` set m \<and> mt = snd ` set m \<and> set m \<subseteq> fst ` set ps \<and>
     distinct (map fst m) \<and> distinct (map snd m)"
proof (induction ps rule: rev_induct)
  case Nil
  show ?case by (simp add: greedy_matching_def)
next
  case (snoc p ps)
  obtain d t v where p: "p = ((d, t), v)" by (cases p) auto
  obtain m md mt where g: "greedy_matching ps = (m, md, mt)" by (cases "greedy_matching ps")
  from snoc g have inv: "md = fst ` set m" "mt = snd ` set m" "set m \<subseteq> fst ` set ps"
    "distinct (map fst m)" "distinct (map snd m)" by simp_all
  show ?case
  proof (cases "d \<notin> md \<and> t \<notin> mt")
    case True
    then have "AList.update d t m = m @ [(d, t)]" using inv(1) by (intro update_new_key) simp
    then show ?thesis using True inv
      by (auto simp: greedy_matching_snoc g p greedy_step_def)
  next
    case False
    then show ?thesis using inv
      by (auto simp: greedy_matching_snoc g p greedy_step_def)
  qed
qed

lemma greedy_matches_snoc:
  "fst (greedy_matching (ps @ [((d, t), v)])) =
     (let m = fst (greedy_matching ps)
      in if d \<notin> fst ` set m \<and> t \<notin> snd ` set m then m @ [(d, t)] else m)"
proof -
  obtain m md mt where g: "greedy_matching ps = (m, md, mt)" by (cases "greedy_matching ps")
  from greedy_inv [of ps] g have inv: "md = fst ` set m" "mt = snd ` set m" by simp_all
  have "d \<notin> fst ` set m \<Longrightarrow> AList.update d t m = m @ [(d, t)]" by (rule update_new_key)
  then show ?thesis
    by (auto simp: greedy_matching_snoc g greedy_step_def inv Let_def)
qed

lemma greedy_characterization:
  assumes "distinct (map fst ps)"
  shows "\<forall>i<length ps.
           fst (ps ! i) \<in> set (fst (greedy_matching ps)) \<longleftrightarrow>
           (\<forall>j<i. fst (ps ! j) \<in> set (fst (greedy_matching ps)) \<longrightarrow>
                  fst (fst (ps ! j)) \<noteq> fst (fst (ps ! i)) \<and>
                  snd (fst (ps ! j)) \<noteq> snd (fst (ps ! i)))"
  using assms
proof (induction ps rule: rev_induct)
  case Nil
  show ?case by simp
next
  case (snoc p ps)
  obtain d t v where p: "p = ((d, t), v)" by (cases p) auto
  define m where "m = fst (greedy_matching ps)"
  define m' where "m' = fst (greedy_matching (ps @ [p]))"
  have dist: "distinct (map fst ps)" and new: "(d, t) \<notin> fst ` set ps"
    using snoc.prems by (auto simp: p)
  have sub: "set m \<subseteq> fst ` set ps"
    using greedy_inv [of ps] by (auto simp: m_def split: prod.splits)
  have m'_eq: "m' = (if d \<notin> fst ` set m \<and> t \<notin> snd ` set m then m @ [(d, t)] else m)"
    by (simp add: m'_def m_def p greedy_matches_snoc Let_def)
  have IH: "\<forall>i<length ps. fst (ps ! i) \<in> set m \<longleftrightarrow>
           (\<forall>j<i. fst (ps ! j) \<in> set m \<longrightarrow>
                  fst (fst (ps ! j)) \<noteq> fst (fst (ps ! i)) \<and>
                  snd (fst (ps ! j)) \<noteq> snd (fst (ps ! i)))"
    using snoc.IH [OF dist] by (simp add: m_def)
  have old: "fst (ps ! j) \<in> set m' \<longleftrightarrow> fst (ps ! j) \<in> set m" if "j < length ps" for j
  proof -
    from that have "fst (ps ! j) \<in> fst ` set ps" by simp
    with new have "fst (ps ! j) \<noteq> (d, t)" by metis
    then show ?thesis by (auto simp: m'_eq)
  qed
  have last: "(d, t) \<in> set m' \<longleftrightarrow>
      (\<forall>j<length ps. fst (ps ! j) \<in> set m \<longrightarrow> fst (fst (ps ! j)) \<noteq> d \<and> snd (fst (ps ! j)) \<noteq> t)"
  proof -
    have "(d, t) \<notin> set m" using sub new by auto
    then have "(d, t) \<in> set m' \<longleftrightarrow> d \<notin> fst ` set m \<and> t \<notin> snd ` set m"
      by (auto simp: m'_eq)
    also have "\<dots> \<longleftrightarrow> (\<forall>q \<in> set m. fst q \<noteq> d \<and> snd q \<noteq> t)" by force
    also have "\<dots> \<longleftrightarrow> (\<forall>j<length ps. fst (ps ! j) \<in> set m \<longrightarrow>
                          fst (fst (ps ! j)) \<noteq> d \<and> snd (fst (ps ! j)) \<noteq> t)"
    proof
      assume "\<forall>q \<in> set m. fst q \<noteq> d \<and> snd q \<noteq> t"
      then show "\<forall>j<length ps. fst (ps ! j) \<in> set m \<longrightarrow>
                          fst (fst (ps ! j)) \<noteq> d \<and> snd (fst (ps ! j)) \<noteq> t" by blast
    next
      assume r: "\<forall>j<length ps. fst (ps ! j) \<in> set m \<longrightarrow>
                          fst (fst (ps ! j)) \<noteq> d \<and> snd (fst (ps ! j)) \<noteq> t"
      show "\<forall>q \<in> set m. fst q \<noteq> d \<and> snd q \<noteq> t"
      proof
        fix q assume q: "q \<in> set m"
        with sub obtain x where "x \<in> set ps" "q = fst x" by auto
        then obtain j where "j < length ps" "ps ! j = x" by (auto simp: in_set_conv_nth)
        with r q \<open>q = fst x\<close> show "fst q \<noteq> d \<and> snd q \<noteq> t" by auto
      qed
    qed
    finally show ?thesis .
  qed
  show ?case
  proof (intro allI impI)
    fix i assume "i < length (ps @ [p])"
    then consider "i < length ps" | "i = length ps" by force
    then show "fst ((ps @ [p]) ! i) \<in> set (fst (greedy_matching (ps @ [p]))) \<longleftrightarrow>
           (\<forall>j<i. fst ((ps @ [p]) ! j) \<in> set (fst (greedy_matching (ps @ [p]))) \<longrightarrow>
                  fst (fst ((ps @ [p]) ! j)) \<noteq> fst (fst ((ps @ [p]) ! i)) \<and>
                  snd (fst ((ps @ [p]) ! j)) \<noteq> snd (fst ((ps @ [p]) ! i)))"
    proof cases
      case 1
      have old_i: "fst (ps ! j) \<in> set m' \<longleftrightarrow> fst (ps ! j) \<in> set m" if "j < i" for j
        using that 1 by (intro old) simp
      have "fst (ps ! i) \<in> set m' \<longleftrightarrow> fst (ps ! i) \<in> set m" using 1 by (rule old)
      also have "\<dots> \<longleftrightarrow> (\<forall>j<i. fst (ps ! j) \<in> set m \<longrightarrow>
                  fst (fst (ps ! j)) \<noteq> fst (fst (ps ! i)) \<and>
                  snd (fst (ps ! j)) \<noteq> snd (fst (ps ! i)))"
        using IH 1 by blast
      also have "\<dots> \<longleftrightarrow> (\<forall>j<i. fst (ps ! j) \<in> set m' \<longrightarrow>
                  fst (fst (ps ! j)) \<noteq> fst (fst (ps ! i)) \<and>
                  snd (fst (ps ! j)) \<noteq> snd (fst (ps ! i)))"
        by (simp add: old_i)
      finally show ?thesis using 1 by (simp add: nth_append m'_def)
    next
      case 2
      have "(d, t) \<in> set m' \<longleftrightarrow>
           (\<forall>j<length ps. fst (ps ! j) \<in> set m' \<longrightarrow>
                  fst (fst (ps ! j)) \<noteq> d \<and> snd (fst (ps ! j)) \<noteq> t)"
        unfolding last by (simp add: old)
      then show ?thesis using 2 by (simp add: nth_append m'_def p)
    qed
  qed
qed


lemma set_update_subset: "set (AList.update k v al) \<subseteq> insert (k, v) (set al)"
  by (induction al) auto

lemma iou_row_valid:
  assumes "\<forall>e \<in> set m. valid_entry dets trks thr e" "(d, db) \<in> set dets" "set ts \<subseteq> set trks"
  shows "\<forall>e \<in> set (iou_row thr d db ts m). valid_entry dets trks thr e"
  using assms(1,3)
proof (induction ts arbitrary: m)
  case Nil
  then show ?case by (simp add: iou_row_def)
next
  case (Cons x ts)
  obtain t tb where x: "x = (t, tb)" by (cases x)
  define m' where "m' = (if compute_iou db tb \<ge> thr then AList.update (d, t) (compute_iou db tb) m else m)"
  have step: "iou_row thr d db (x # ts) m = iou_row thr d db ts m'"
    by (simp add: iou_row_def x m'_def Let_def)
  have "(t, tb) \<in> set trks" using Cons.prems(2) by (simp add: x)
  then have "thr \<le> compute_iou db tb \<Longrightarrow> valid_entry dets trks thr ((d, t), compute_iou db tb)"
    using assms(2) unfolding valid_entry_def by (intro exI [of _ db] exI [of _ tb]) simp
  then have "\<forall>e \<in> set m'. valid_entry dets trks thr e"
    using Cons.prems(1) set_update_subset [of "(d, t)" "compute_iou db tb" m]
    by (auto simp: m'_def)
  moreover have "set ts \<subseteq> set trks" using Cons.prems(2) by simp
  ultimately show ?case unfolding step by (rule Cons.IH)
qed

lemma iou_fold_valid:
  assumes "\<forall>e \<in> set m. valid_entry dets trks thr e" "set ds \<subseteq> set dets"
  shows "\<forall>e \<in> set (fold (\<lambda>(det_idx, det_bbox) m. iou_row thr det_idx det_bbox trks m) ds m).
           valid_entry dets trks thr e"
  using assms
proof (induction ds arbitrary: m)
  case Nil
  then show ?case by simp
next
  case (Cons x ds)
  obtain d db where x: "x = (d, db)" by (cases x)
  have "\<forall>e \<in> set (iou_row thr d db trks m). valid_entry dets trks thr e"
    using Cons.prems by (intro iou_row_valid) (auto simp: x)
  then show ?case using Cons.prems(2) by (simp add: x Cons.IH)
qed

lemma iou_matrix_valid: "\<forall>e \<in> set (iou_matrix dets trks thr). valid_entry dets trks thr e"
  unfolding iou_matrix_def by (rule iou_fold_valid) simp_all

lemma iou_row_distinct:
  "distinct (map fst m) \<Longrightarrow> distinct (map fst (iou_row thr d db ts m))"
proof (induction ts arbitrary: m)
  case Nil
  then show ?case by (simp add: iou_row_def)
next
  case (Cons x ts)
  obtain t tb where x: "x = (t, tb)" by (cases x)
  define m' where "m' = (if compute_iou db tb \<ge> thr then AList.update (d, t) (compute_iou db tb) m else m)"
  have step: "iou_row thr d db (x # ts) m = iou_row thr d db ts m'"
    by (simp add: iou_row_def x m'_def Let_def)
  have "distinct (map fst m')" using Cons.prems by (simp add: m'_def distinct_update)
  then show ?case unfolding step by (rule Cons.IH)
qed

lemma iou_fold_distinct:
  "distinct (map fst m) \<Longrightarrow>
   distinct (map fst (fold (\<lambda>(det_idx, det_bbox) m. iou_row thr det_idx det_bbox trks m) ds m))"
proof (induction ds arbitrary: m)
  case Nil
  then show ?case by simp
next
  case (Cons x ds)
  obtain d db where x: "x = (d, db)" by (cases x)
  show ?case using Cons.prems by (simp add: x Cons.IH iou_row_distinct)
qed

lemma iou_matrix_distinct: "distinct (map fst (iou_matrix dets trks thr))"
  unfolding iou_matrix_def by (rule iou_fold_distinct) simp

lemma iou_row_append:
  assumes "distinct (map fst ts)" "\<forall>t \<in> fst ` set ts. (d, t) \<notin> fst ` set m"
  shows "iou_row thr d db ts m =
           m @ map (\<lambda>(track_id, track_bbox). ((d, track_id), compute_iou db track_bbox))
                   (filter (\<lambda>(track_id, track_bbox). compute_iou db track_bbox \<ge> thr) ts)"
  using assms
proof (induction ts arbitrary: m)
  case Nil
  then show ?case by (simp add: iou_row_def)
next
  case (Cons x ts)
  obtain t tb where x: "x = (t, tb)" by (cases x)
  define m' where "m' = (if compute_iou db tb \<ge> thr then AList.update (d, t) (compute_iou db tb) m else m)"
  have step: "iou_row thr d db (x # ts) m = iou_row thr d db ts m'"
    by (simp add: iou_row_def x m'_def Let_def)
  have new: "(d, t) \<notin> fst ` set m" using Cons.prems(2) by (simp add: x)
  have m'_eq: "m' = (if compute_iou db tb \<ge> thr then m @ [((d, t), compute_iou db tb)] else m)"
    using update_new_key [OF new] by (simp add: m'_def)
  have "t \<notin> fst ` set ts" and d: "distinct (map fst ts)" using Cons.prems(1) by (auto simp: x)
  then have "\<forall>t' \<in> fst ` set ts. (d, t') \<notin> fst ` set m'"
    using Cons.prems(2) by (auto simp: m'_eq x)
  from Cons.IH [OF d this] show ?case unfolding step by (simp add: m'_eq x)
qed

lemma iou_row_keys:
  "fst ` set (iou_row thr d db ts m) \<subseteq> fst ` set m \<union> {d} \<times> UNIV"
proof (induction ts arbitrary: m)
  case Nil
  then show ?case by (simp add: iou_row_def)
next
  case (Cons x ts)
  obtain t tb where x: "x = (t, tb)" by (cases x)
  define m' where "m' = (if compute_iou db tb \<ge> thr then AList.update (d, t) (compute_iou db tb) m else m)"
  have step: "iou_row thr d db (x # ts) m = iou_row thr d db ts m'"
    by (simp add: iou_row_def x m'_def Let_def)
  have "fst ` set m' \<subseteq> fst ` set m \<union> {d} \<times> UNIV"
    by (auto simp: m'_def dom_update)
  with Cons.IH [of m'] show ?case unfolding step by blast
qed

lemma iou_fold_append:
  assumes "distinct (map fst ds)" "distinct (map fst trks)"
    "\<forall>d \<in> fst ` set ds. \<forall>t. (d, t) \<notin> fst ` set m"
  shows "fold (\<lambda>(det_idx, det_bbox) m. iou_row thr det_idx det_bbox trks m) ds m =
           m @ candidate_pairs ds trks thr"
  using assms(1,3)
proof (induction ds arbitrary: m)
  case Nil
  then show ?case by (simp add: candidate_pairs_def)
next
  case (Cons x ds)
  obtain d db where x: "x = (d, db)" by (cases x)
  define row where "row = map (\<lambda>(track_id, track_bbox). ((d, track_id), compute_iou db track_bbox))
                   (filter (\<lambda>(track_id, track_bbox). compute_iou db track_bbox \<ge> thr) trks)"
  have r: "iou_row thr d db trks m = m @ row"
    unfolding row_def using assms(2) Cons.prems(2) by (intro iou_row_append) (auto simp: x)
  have dd: "distinct (map fst ds)" and dn: "d \<notin> fst ` set ds" using Cons.prems(1) by (auto simp: x)
  have "fst ` set row \<subseteq> {d} \<times> UNIV" by (auto simp: row_def)
  then have "(d', t) \<notin> fst ` set row" if "d' \<in> fst ` set ds" for d' t
    using that dn by blast
  moreover have "(d', t) \<notin> fst ` set m" if "d' \<in> fst ` set ds" for d' t
    using that Cons.prems(2) by (simp add: x) blast
  ultimately have "\<forall>d' \<in> fst ` set ds. \<forall>t. (d', t) \<notin> fst ` set (m @ row)"
    by (simp add: image_Un)
  from Cons.IH [OF dd this] show ?case
    by (simp add: x r candidate_pairs_def row_def)
qed

lemma iou_matrix_generation_order:
  "distinct (map fst dets) \<Longrightarrow> distinct (map fst trks) \<Longrightarrow>
   iou_matrix dets trks thr = candidate_pairs dets trks thr"
  unfolding iou_matrix_def using iou_fold_append [of dets trks "[]" thr] by simp


lemma iou_fold_no_tracks:
  "fold (\<lambda>(det_idx, det_bbox) m. iou_row thr det_idx det_bbox [] m) ds m = m"
  by (induction ds arbitrary: m) (auto simp: iou_row_def)

lemma matches_greedy:
  "fst (match_detections_to_tracks list_of dets trks thr) =
     fst (greedy_matching (sorted_pairs (iou_matrix dets trks thr)))"
proof (cases "dets = [] \<or> trks = []")
  case True
  then have "iou_matrix dets trks thr = []"
    by (auto simp: iou_matrix_def iou_fold_no_tracks)
  then show ?thesis using True
    by (simp add: match_detections_to_tracks_def sorted_pairs_def greedy_matching_def)
next
  case False
  then show ?thesis
    by (simp add: match_detections_to_tracks_def split: prod.splits)
qed

lemma sorted_pairs_props:
  "sorted_wrt (\<lambda>p q. snd q \<le> snd p) (sorted_pairs m)"
  "mset (sorted_pairs m) = mset m"
  "filter (\<lambda>p. snd p = k) (sorted_pairs m) = filter (\<lambda>p. snd p = k) m"
  "distinct (map fst (sorted_pairs m)) = distinct (map fst m)"
proof -
  have "sorted (map (\<lambda>x. - snd x) (sorted_pairs m))"
    unfolding sorted_pairs_def by (rule sorted_sort_key)
  then show "sorted_wrt (\<lambda>p q. snd q \<le> snd p) (sorted_pairs m)"
    by (simp add: sorted_map)
  show ms: "mset (sorted_pairs m) = mset m" by (simp add: sorted_pairs_def)
  have "filter (\<lambda>p. - snd p = - k) (sorted_pairs m) = filter (\<lambda>p. - snd p = - k) m"
    unfolding sorted_pairs_def by (rule sort_key_stable)
  then show "filter (\<lambda>p. snd p = k) (sorted_pairs m) = filter (\<lambda>p. snd p = k) m" by simp
  have "mset (map fst (sorted_pairs m)) = mset (map fst m)" using ms by (metis mset_map)
  then show "distinct (map fst (sorted_pairs m)) = distinct (map fst m)"
    by (metis mset_eq_imp_distinct_iff)
qed

text \<open>
  Claim C2.  For every detection list, track map and threshold: no detection index and no
  track id occurs in two committed pairs; every committed pair is a detection and a track
  whose IoU reaches the threshold; the candidates are generated detection by detection and,
  for each detection, track by track (for distinct detection indices and track ids); they
  are processed in descending order of IoU, the sort being a permutation that keeps
  candidates of equal IoU in the order of generation; a candidate is committed exactly when
  no candidate before it in that order that was committed has the same detection or the same
  track; and the matches do not depend on anything but the arguments, in particular not on
  the iteration order of the sets used for the unmatched lists.
\<close>

theorem matching_greedy:
  "(let matches = fst (match_detections_to_tracks list_of dets trks thr);
        candidates = iou_matrix dets trks thr;
        ordered = sorted_pairs candidates
    in distinct (map fst matches) \<and> distinct (map snd matches) \<and>
       (\<forall>(d, t) \<in> set matches.
           \<exists>db tb. (d, db) \<in> set dets \<and> (t, tb) \<in> set trks \<and> thr \<le> compute_iou db tb) \<and>
       (distinct (map fst dets) \<and> distinct (map fst trks)
           \<longrightarrow> candidates = candidate_pairs dets trks thr) \<and>
       sorted_wrt (\<lambda>p q. snd q \<le> snd p) ordered \<and>
       mset ordered = mset candidates \<and>
       (\<forall>k. filter (\<lambda>p. snd p = k) ordered = filter (\<lambda>p. snd p = k) candidates) \<and>
       set matches \<subseteq> fst ` set ordered \<and>
       (\<forall>i<length ordered.
           fst (ordered ! i) \<in> set matches \<longleftrightarrow>
           (\<forall>j<i. fst (ordered ! j) \<in> set matches \<longrightarrow>
                  fst (fst (ordered ! j)) \<noteq> fst (fst (ordered ! i)) \<and>
                  snd (fst (ordered ! j)) \<noteq> snd (fst (ordered ! i)))) \<and>
       fst (match_detections_to_tracks other_list_of dets trks thr) = matches)"
proof -
  define candidates where "candidates = iou_matrix dets trks thr"
  define ordered where "ordered = sorted_pairs candidates"
  define matches where "matches = fst (greedy_matching ordered)"
  have m: "fst (match_detections_to_tracks lo dets trks thr) = matches" for lo
    by (simp add: matches_greedy matches_def ordered_def candidates_def)
  have inv: "set matches \<subseteq> fst ` set ordered" "distinct (map fst matches)" "distinct (map snd matches)"
    using greedy_inv [of ordered] by (auto simp: matches_def split: prod.splits)
  have dist: "distinct (map fst ordered)"
    by (simp add: ordered_def sorted_pairs_props(4) candidates_def iou_matrix_distinct)
  have valid: "\<exists>db tb. (d, db) \<in> set dets \<and> (t, tb) \<in> set trks \<and> thr \<le> compute_iou db tb"
    if "(d, t) \<in> set matches" for d t
  proof -
    from that inv(1) obtain e where e: "e \<in> set ordered" "fst e = (d, t)" by force
    then have "e \<in> set candidates" by (simp add: ordered_def sorted_pairs_def)
    then have "valid_entry dets trks thr e"
      using iou_matrix_valid [of dets trks thr] by (simp add: candidates_def)
    then obtain db tb where "(fst (fst e), db) \<in> set dets" "(snd (fst e), tb) \<in> set trks"
      "thr \<le> compute_iou db tb" unfolding valid_entry_def by blast
    then show ?thesis using e(2) by (intro exI [of _ db] exI [of _ tb]) simp
  qed
  have gen: "distinct (map fst dets) \<and> distinct (map fst trks)
               \<longrightarrow> candidates = candidate_pairs dets trks thr"
    by (simp add: candidates_def iou_matrix_generation_order)
  have greedy: "\<forall>i<length ordered.
           fst (ordered ! i) \<in> set matches \<longleftrightarrow>
           (\<forall>j<i. fst (ordered ! j) \<in> set matches \<longrightarrow>
                  fst (fst (ordered ! j)) \<noteq> fst (fst (ordered ! i)) \<and>
                  snd (fst (ordered ! j)) \<noteq> snd (fst (ordered ! i)))"
    unfolding matches_def using dist by (rule greedy_characterization)
  have "distinct (map fst matches) \<and> distinct (map snd matches) \<and>
       (\<forall>(d, t) \<in> set matches.
           \<exists>db tb. (d, db) \<in> set dets \<and> (t, tb) \<in> set trks \<and> thr \<le> compute_iou db tb) \<and>
       (distinct (map fst dets) \<and> distinct (map fst trks)
           \<longrightarrow> candidates = candidate_pairs dets trks thr) \<and>
       sorted_wrt (\<lambda>p q. snd q \<le> snd p) ordered \<and>
       mset ordered = mset candidates \<and>
       (\<forall>k. filter (\<lambda>p. snd p = k) ordered = filter (\<lambda>p. snd p = k) candidates) \<and>
       set matches \<subseteq> fst ` set ordered \<and>
       (\<forall>i<length ordered.
           fst (ordered ! i) \<in> set matches \<longleftrightarrow>
           (\<forall>j<i. fst (ordered ! j) \<in> set matches \<longrightarrow>
                  fst (fst (ordered ! j)) \<noteq> fst (fst (ordered ! i)) \<and>
                  snd (fst (ordered ! j)) \<noteq> snd (fst (ordered ! i))))"
    using inv valid gen greedy sorted_pairs_props(1-3) [where m = candidates]
    unfolding ordered_def [symmetric] by (intro conjI) (auto simp only:)
  then show ?thesis
    unfolding Let_def m candidates_def [symmetric] ordered_def [symmetric] by simp
qed


lemma rnd_dyadic: "rnd (1 / 2) = 1 / 2" "rnd (1 / 4) = 1 / 4" "rnd 1 = 1"
  by (simp_all add: rnd_eval)

lemma compute_iou_half_box: "compute_iou (0, 0, 1 / 2, 1 / 2) (0, 0, 1 / 2, 1 / 2) = 1"
  by (simp add: compute_iou_def compute_iou_with_def Let_def rnd_dyadic)

lemma matches_example:
  "fst (match_detections_to_tracks (\<lambda>xs. xs)
          [(0, (0, 0, 1 / 2, 1 / 2)), (1, (0, 0, 1 / 2, 1 / 2))]
          [(1, (0, 0, 1 / 2, 1 / 2)), (2, (0, 0, 1 / 2, 1 / 2))] (1 / 2)) = [(0, 1), (1, 2)]"
  by (simp add: match_detections_to_tracks_def iou_matrix_def iou_row_def compute_iou_half_box
        sorted_pairs_def greedy_matching_def greedy_step_def)

theorem matching_greedy_witness:
  "distinct (map fst [(0 :: int, (0 :: real, 0 :: real, 1 / 2 :: real, 1 / 2 :: real)), (1, (0, 0, 1 / 2, 1 / 2))]) \<and>
   distinct (map fst [(1 :: int, (0 :: real, 0 :: real, 1 / 2 :: real, 1 / 2 :: real)), (2, (0, 0, 1 / 2, 1 / 2))]) \<and>
   iou_matrix [(0, (0, 0, 1 / 2, 1 / 2)), (1, (0, 0, 1 / 2, 1 / 2))]
              [(1, (0, 0, 1 / 2, 1 / 2)), (2, (0, 0, 1 / 2, 1 / 2))] (1 / 2)
     = [((0, 1), 1), ((0, 2), 1), ((1, 1), 1), ((1, 2), 1)] \<and>
   fst (match_detections_to_tracks (\<lambda>xs. xs)
          [(0, (0, 0, 1 / 2, 1 / 2)), (1, (0, 0, 1 / 2, 1 / 2))]
          [(1, (0, 0, 1 / 2, 1 / 2)), (2, (0, 0, 1 / 2, 1 / 2))] (1 / 2)) = [(0, 1), (1, 2)]"
  using matching_greedy [of "\<lambda>xs. xs"
          "[(0, (0, 0, 1 / 2, 1 / 2)), (1, (0, 0, 1 / 2, 1 / 2))]"
          "[(1, (0, 0, 1 / 2, 1 / 2)), (2, (0, 0, 1 / 2, 1 / 2))]" "1 / 2" rev]
  by (simp add: Let_def candidate_pairs_def compute_iou_half_box matches_example)

section \<open>Properties of the tracker cycle\<close>

lemma cycle_dets_keys:
  "map fst (map (\<lambda>(idx, det). (idx, det_bbox det)) (enumerate_py objs)) = map int [0..<length objs]"
  by (simp add: enumerate_py_def map_fst_zip_take comp_def case_prod_unfold map_fst_zip)

lemma active_tracks_keys: "map fst (get_active_tracks tr) = map fst (tracks tr)"
  by (simp add: get_active_tracks_def comp_def case_prod_unfold)

lemma matching_facts:
  assumes "match_detections_to_tracks list_of dets trks thr = (m, ud, ut)"
    and "\<forall>xs. mset (list_of xs) = mset xs" and "distinct (map fst dets)"
  shows "distinct (map fst m)" "distinct (map snd m)"
    "fst ` set m \<subseteq> fst ` set dets" "snd ` set m \<subseteq> fst ` set trks"
    "mset ud = mset (filter (\<lambda>d. d \<notin> fst ` set m) (map fst dets))"
proof -
  define ordered where "ordered = sorted_pairs (iou_matrix dets trks thr)"
  obtain m' md mt where g: "greedy_matching ordered = (m', md, mt)"
    by (cases "greedy_matching ordered")
  have "m = fst (match_detections_to_tracks list_of dets trks thr)" using assms(1) by simp
  then have m: "m = m'" by (simp add: matches_greedy ordered_def [symmetric] g)
  from greedy_inv [of ordered] g have inv: "md = fst ` set m" "set m \<subseteq> fst ` set ordered"
    "distinct (map fst m)" "distinct (map snd m)" by (simp_all add: m)
  show "distinct (map fst m)" "distinct (map snd m)" by (rule inv)+
  have valid: "valid_entry dets trks thr e" if "e \<in> set ordered" for e
    using that iou_matrix_valid [of dets trks thr] by (simp add: ordered_def sorted_pairs_def)
  show "fst ` set m \<subseteq> fst ` set dets"
  proof
    fix d assume "d \<in> fst ` set m"
    then obtain t where "(d, t) \<in> set m" by auto
    with inv(2) obtain e where "e \<in> set ordered" "fst e = (d, t)" by force
    with valid [of e] show "d \<in> fst ` set dets" by (force simp: valid_entry_def)
  qed
  show "snd ` set m \<subseteq> fst ` set trks"
  proof
    fix t assume "t \<in> snd ` set m"
    then obtain d where "(d, t) \<in> set m" by auto
    with inv(2) obtain e where "e \<in> set ordered" "fst e = (d, t)" by force
    with valid [of e] show "t \<in> fst ` set trks" by (force simp: valid_entry_def)
  qed
  show "mset ud = mset (filter (\<lambda>d. d \<notin> fst ` set m) (map fst dets))"
  proof (cases "dets = [] \<or> trks = []")
    case True
    with assms(1) have "m = []" "ud = map fst dets"
      by (auto simp: match_detections_to_tracks_def)
    then show ?thesis by simp
  next
    case False
    with assms(1) g have "ud = list_of (filter (\<lambda>d. d \<notin> md) (remdups (map fst dets)))"
      by (auto simp: match_detections_to_tracks_def ordered_def [symmetric])
    then show ?thesis using assms(2,3) by (simp add: inv(1) distinct_remdups_id)
  qed
qed


lemma Track_update_id [simp]: "track_id (Track_update t b fid ts) = track_id t"
  by (simp add: Track_update_def Let_def)

lemma mark_missed_id [simp]: "track_id (mark_missed t) = track_id t"
  by (simp add: mark_missed_def)

lemma tracker_ok_lookup:
  assumes "tracker_ok trk" "t \<in> fst ` set (tracks trk)"
  obtains track where "dict_get (tracks trk) t = Inr track" "track_id track = t"
proof -
  from assms(2) obtain track where s: "map_of (tracks trk) t = Some track"
    by (metis domIff dom_map_of_conv_image_fst not_Some_eq)
  then have "(t, track) \<in> set (tracks trk)" by (rule map_of_SomeD)
  with assms(1) have "track_id track = t" by (auto simp: tracker_ok_def)
  with s that show ?thesis by (simp add: dict_get_def)
qed

lemma tracker_ok_update:
  assumes "tracker_ok trk" "t \<in> fst ` set (tracks trk)" "track_id track' = t"
  shows "tracker_ok (trk\<lparr>tracks := AList.update t track' (tracks trk)\<rparr>)"
    and "map fst (AList.update t track' (tracks trk)) = map fst (tracks trk)"
proof -
  show k: "map fst (AList.update t track' (tracks trk)) = map fst (tracks trk)"
    using assms(2) by (simp add: update_keys)
  have "set (AList.update t track' (tracks trk)) \<subseteq> insert (t, track') (set (tracks trk))"
    by (rule set_update_subset)
  moreover have "t < next_track_id trk" using assms(1,2) by (auto simp: tracker_ok_def)
  ultimately show "tracker_ok (trk\<lparr>tracks := AList.update t track' (tracks trk)\<rparr>)"
    using assms(1,3) k by (auto simp: tracker_ok_def)
qed

lemma update_matched_ok:
  assumes "tracker_ok trk"
    and "\<forall>(d, t) \<in> set ms. 0 \<le> d \<and> d < int (length (objects event)) \<and> t \<in> fst ` set (tracks trk)"
  shows "\<exists>trk' pubs. update_matched event ms (trk, pub) = Inr (trk', pub @ pubs) \<and>
           map tu_track_id pubs = map snd ms \<and>
           (\<forall>u \<in> set pubs. tu_frame_id u = frame_id event) \<and>
           tracker_ok trk' \<and> map fst (tracks trk') = map fst (tracks trk) \<and>
           next_track_id trk' = next_track_id trk"
  using assms
proof (induction ms arbitrary: trk pub)
  case Nil
  then show ?case by simp
next
  case (Cons x ms)
  obtain d t where x: "x = (d, t)" by (cases x)
  from Cons.prems(2) have d: "0 \<le> d" "d < int (length (objects event))"
    and t: "t \<in> fst ` set (tracks trk)" by (simp_all add: x)
  have lg: "list_get (objects event) d = Inr (objects event ! nat d)"
    using d by (simp add: list_get_def)
  from tracker_ok_lookup [OF Cons.prems(1) t] obtain track
    where tr: "dict_get (tracks trk) t = Inr track" "track_id track = t" .
  define track' where "track' = Track_update track (det_bbox (objects event ! nat d))
                                   (frame_id event) (timestamp_ms event)"
  define trk1 where "trk1 = trk\<lparr>tracks := AList.update t track' (tracks trk)\<rparr>"
  have ut: "update_track trk t (det_bbox (objects event ! nat d)) (frame_id event) (timestamp_ms event)
              = Inr (trk1, track')"
    by (simp add: update_track_def tr(1) track'_def trk1_def Let_def)
  have id': "track_id track' = t" by (simp add: track'_def tr(2))
  have ok1: "tracker_ok trk1" and keys1: "map fst (tracks trk1) = map fst (tracks trk)"
    using tracker_ok_update [OF Cons.prems(1) t id'] by (simp_all add: trk1_def)
  have nx1: "next_track_id trk1 = next_track_id trk" by (simp add: trk1_def)
  have "fst ` set (tracks trk1) = fst ` set (tracks trk)"
    using keys1 by (metis set_map)
  then have pre: "\<forall>(d, t) \<in> set ms. 0 \<le> d \<and> d < int (length (objects event)) \<and>
                     t \<in> fst ` set (tracks trk1)"
    using Cons.prems(2) by simp
  define u where "u = publish_track_update track' (frame_id event) (timestamp_ms event)"
  from Cons.IH [OF ok1 pre, of "pub @ [u]"] obtain trk' pubs where
    r: "update_matched event ms (trk1, pub @ [u]) = Inr (trk', (pub @ [u]) @ pubs)"
       "map tu_track_id pubs = map snd ms" "\<forall>u \<in> set pubs. tu_frame_id u = frame_id event"
       "tracker_ok trk'" "map fst (tracks trk') = map fst (tracks trk1)"
       "next_track_id trk' = next_track_id trk1" by blast
  have uu: "tu_track_id u = t" "tu_frame_id u = frame_id event"
    by (simp_all add: u_def publish_track_update_def id')
  have "update_matched event (x # ms) (trk, pub) = Inr (trk', pub @ (u # pubs))"
    using r(1) by (simp add: x lg ut u_def)
  then show ?case using r(2-6) uu keys1 nx1 by (intro exI [of _ trk'] exI [of _ "u # pubs"]) (simp add: x)
qed

lemma create_unmatched_ok:
  assumes "tracker_ok trk"
    and "\<forall>d \<in> set ds. 0 \<le> d \<and> d < int (length (objects event))"
  shows "\<exists>trk' pubs. create_unmatched event ds (trk, pub) = Inr (trk', pub @ pubs) \<and>
           map tu_track_id pubs = map (\<lambda>k. next_track_id trk + int k) [0..<length ds] \<and>
           (\<forall>u \<in> set pubs. tu_frame_id u = frame_id event) \<and>
           tracker_ok trk'"
  using assms
proof (induction ds arbitrary: trk pub)
  case Nil
  then show ?case by simp
next
  case (Cons d ds)
  from Cons.prems(2) have d: "0 \<le> d" "d < int (length (objects event))" by simp_all
  have lg: "list_get (objects event) d = Inr (objects event ! nat d)"
    using d by (simp add: list_get_def)
  define det where "det = objects event ! nat d"
  define track where "track = Track_update (Track_init (next_track_id trk) (det_label det) (det_bbox det))
                                (det_bbox det) (frame_id event) (timestamp_ms event)"
  define trk1 where "trk1 = trk\<lparr>tracks := AList.update (track_id track) track (tracks trk),
                                  next_track_id := next_track_id trk + 1\<rparr>"
  have ct: "create_track trk (det_label det) (det_bbox det) (frame_id event) (timestamp_ms event)
              = (trk1, track)"
    by (simp add: create_track_def track_def trk1_def Let_def)
  have tid: "track_id track = next_track_id trk" by (simp add: track_def Track_init_def)
  have new: "next_track_id trk \<notin> fst ` set (tracks trk)"
    using Cons.prems(1) by (force simp: tracker_ok_def)
  then have app: "AList.update (next_track_id trk) track (tracks trk)
                    = tracks trk @ [(next_track_id trk, track)]"
    by (rule update_new_key)
  have ok1: "tracker_ok trk1"
    using Cons.prems(1) new tid by (auto simp: tracker_ok_def trk1_def app)
  have nx1: "next_track_id trk1 = next_track_id trk + 1" by (simp add: trk1_def)
  have pre: "\<forall>d \<in> set ds. 0 \<le> d \<and> d < int (length (objects event))" using Cons.prems(2) by simp
  define u where "u = publish_track_update track (frame_id event) (timestamp_ms event)"
  from Cons.IH [OF ok1 pre, of "pub @ [u]"] obtain trk' pubs where
    r: "create_unmatched event ds (trk1, pub @ [u]) = Inr (trk', (pub @ [u]) @ pubs)"
       "map tu_track_id pubs = map (\<lambda>k. next_track_id trk1 + int k) [0..<length ds]"
       "\<forall>u \<in> set pubs. tu_frame_id u = frame_id event" "tracker_ok trk'" by blast
  have uu: "tu_track_id u = next_track_id trk" "tu_frame_id u = frame_id event"
    by (simp_all add: u_def publish_track_update_def tid)
  have e: "create_unmatched event (d # ds) (trk, pub) = Inr (trk', pub @ (u # pubs))"
    using r(1) ct by (simp add: lg det_def [symmetric] u_def)
  have "map (\<lambda>k. next_track_id trk + int k) [0..<length (d # ds)]
          = next_track_id trk # map (\<lambda>k. next_track_id trk1 + int k) [0..<length ds]"
    by (simp add: nx1 map_upt_Suc del: upt_Suc)
  then have "map tu_track_id (u # pubs) = map (\<lambda>k. next_track_id trk + int k) [0..<length (d # ds)]"
    using r(2) uu(1) by simp
  with e r(3,4) uu(2) show ?case
    by (intro exI [of _ trk'] exI [of _ "u # pubs"]) simp
qed

lemma mark_missed_keys:
  "map fst (map (\<lambda>(tid, track). if tid \<notin> S then (tid, mark_missed track) else (tid, track)) xs)
     = map fst xs"
  by (induction xs) auto

lemma tracker_ok_mark_missed:
  assumes "tracker_ok trk"
  shows "tracker_ok (mark_missed_tracks trk S)"
proof -
  have "tracks (mark_missed_tracks trk S)
          = map (\<lambda>(tid, track). if tid \<notin> S then (tid, mark_missed track) else (tid, track))
                (tracks trk)"
    by (simp add: mark_missed_tracks_def)
  then have "map fst (tracks (mark_missed_tracks trk S)) = map fst (tracks trk)"
    by (simp only: mark_missed_keys)
  then have "distinct (map fst (tracks (mark_missed_tracks trk S)))"
    using assms by (simp add: tracker_ok_def)
  moreover have "\<forall>(i, t) \<in> set (tracks (mark_missed_tracks trk S)).
                   track_id t = i \<and> i < next_track_id (mark_missed_tracks trk S)"
    using assms by (auto simp: tracker_ok_def mark_missed_tracks_def split: if_splits)
  ultimately show ?thesis by (simp add: tracker_ok_def)
qed

lemma tracker_ok_evict: "tracker_ok trk \<Longrightarrow> tracker_ok (fst (evict_old_tracks trk))"
  by (auto simp: tracker_ok_def evict_old_tracks_def distinct_map_filter)


lemma fresh_ids_distinct: "distinct (map (\<lambda>k. (n::int) + int k) [0..<l])"
  by (simp add: distinct_map inj_on_def)

text \<open>
  Claim C9, as amended.  For every tracker state that satisfies the table invariant and every
  \<open>DetectionResult\<close>, the cycle ends without an exception and publishes exactly one
  \<open>TrackUpdate\<close> for each track matched in the cycle, in the order of the matches,
  followed by exactly one for each track created in the cycle, one per unmatched detection,
  with the fresh ids \<open>next_track_id, next_track_id + 1, \<dots>\<close>.  A track that existed
  before the cycle gets an update exactly when it was matched, so a missed track gets none.
  No track id occurs twice among the updates of one frame, every update carries the frame's
  id, and the invariant holds again after the cycle.
\<close>

theorem track_updates_per_cycle:
  assumes "tracker_ok tr" and "\<forall>xs. mset (list_of xs) = mset xs"
  shows "\<exists>tr' pub. process_detections list_of thr tr event = Inr (tr', pub) \<and>
     (case cycle_matching list_of thr tr event of (matches, unmatched_dets, unmatched_tracks) \<Rightarrow>
        map tu_track_id pub
          = map snd matches @ map (\<lambda>k. next_track_id tr + int k) [0..<length unmatched_dets] \<and>
        mset unmatched_dets
          = mset (filter (\<lambda>d. d \<notin> fst ` set matches) (map int [0..<length (objects event)])) \<and>
        snd ` set matches \<subseteq> fst ` set (tracks tr) \<and>
        (\<forall>i \<in> fst ` set (tracks tr). i \<in> tu_track_id ` set pub \<longleftrightarrow> i \<in> snd ` set matches)) \<and>
     distinct (map tu_track_id pub) \<and>
     (\<forall>u \<in> set pub. tu_frame_id u = frame_id event) \<and>
     tracker_ok tr'"
proof -
  define n where "n = length (objects event)"
  define dets where "dets = map (\<lambda>(idx, det). (idx, det_bbox det)) (enumerate_py (objects event))"
  obtain m ud ut where cm: "match_detections_to_tracks list_of dets (get_active_tracks tr) thr = (m, ud, ut)"
    by (cases "match_detections_to_tracks list_of dets (get_active_tracks tr) thr")
  have dk: "map fst dets = map int [0..<n]" unfolding dets_def n_def by (rule cycle_dets_keys)
  then have dd: "distinct (map fst dets)" by (simp add: distinct_map inj_on_def)
  have dset: "fst ` set dets = int ` {0..<n}" using dk by (metis set_map set_upt)
  note mf = matching_facts [OF cm assms(2) dd]
  have keys: "fst ` set (get_active_tracks tr) = fst ` set (tracks tr)"
    using active_tracks_keys [of tr] by (metis set_map)
  have sub: "snd ` set m \<subseteq> fst ` set (tracks tr)" using mf(4) keys by simp
  have pre1: "\<forall>(d, t) \<in> set m. 0 \<le> d \<and> d < int (length (objects event)) \<and> t \<in> fst ` set (tracks tr)"
  proof (intro ballI, clarify)
    fix d t assume dt: "(d, t) \<in> set m"
    then have "d \<in> fst ` set dets" using mf(3) by force
    then have "0 \<le> d \<and> d < int n" by (auto simp: dset)
    moreover have "t \<in> fst ` set (tracks tr)" using dt sub by force
    ultimately show "0 \<le> d \<and> d < int (length (objects event)) \<and> t \<in> fst ` set (tracks tr)"
      by (simp add: n_def)
  qed
  from update_matched_ok [OF assms(1) pre1, of "[]"] obtain trk1 pubs1 where
    r1: "update_matched event m (tr, []) = Inr (trk1, pubs1)"
        "map tu_track_id pubs1 = map snd m" "\<forall>u \<in> set pubs1. tu_frame_id u = frame_id event"
        "tracker_ok trk1" "next_track_id trk1 = next_track_id tr" by auto
  have udm: "mset ud = mset (filter (\<lambda>d. d \<notin> fst ` set m) (map int [0..<n]))"
    using mf(5) by (simp only: dk)
  then have "set ud = set (filter (\<lambda>d. d \<notin> fst ` set m) (map int [0..<n]))" by (rule mset_eq_setD)
  then have pre2: "\<forall>d \<in> set ud. 0 \<le> d \<and> d < int (length (objects event))"
    by (auto simp: n_def)
  from create_unmatched_ok [OF r1(4) pre2, of pubs1] obtain trk2 pubs2 where
    r2: "create_unmatched event ud (trk1, pubs1) = Inr (trk2, pubs1 @ pubs2)"
        "map tu_track_id pubs2 = map (\<lambda>k. next_track_id trk1 + int k) [0..<length ud]"
        "\<forall>u \<in> set pubs2. tu_frame_id u = frame_id event" "tracker_ok trk2" by blast
  define tr' where "tr' = fst (evict_old_tracks (mark_missed_tracks trk2 (set (map snd m))))"
  have res: "process_detections list_of thr tr event = Inr (tr', pubs1 @ pubs2)"
    by (simp add: process_detections_def dets_def [symmetric] cm r1(1) r2(1) tr'_def
          Let_def split: prod.splits)
  have ok': "tracker_ok tr'"
    unfolding tr'_def by (intro tracker_ok_evict tracker_ok_mark_missed r2(4))
  define news where "news = map (\<lambda>k. next_track_id tr + int k) [0..<length ud]"
  have ids: "map tu_track_id (pubs1 @ pubs2) = map snd m @ news"
    by (simp add: r1(2) r2(2) r1(5) news_def)
  have old: "i < next_track_id tr" if "i \<in> fst ` set (tracks tr)" for i
  proof -
    from that obtain t where "(i, t) \<in> set (tracks tr)" by auto
    with assms(1) show ?thesis unfolding tracker_ok_def by blast
  qed
  have fresh: "i \<notin> set news" if "i \<in> fst ` set (tracks tr)" for i
  proof
    assume "i \<in> set news"
    then obtain k where "i = next_track_id tr + int k" unfolding news_def by auto
    with old [OF that] show False by simp
  qed
  have disj: "set (map snd m) \<inter> set news = {}"
  proof -
    have "i \<notin> set news" if "i \<in> set (map snd m)" for i
    proof -
      from that have "i \<in> snd ` set m" by simp
      with sub have "i \<in> fst ` set (tracks tr)" by blast
      then show ?thesis by (rule fresh)
    qed
    then show ?thesis by blast
  qed
  have "distinct news" unfolding news_def by (rule fresh_ids_distinct)
  with mf(2) disj have dist: "distinct (map tu_track_id (pubs1 @ pubs2))"
    unfolding ids distinct_append by (intro conjI)
  have iff: "\<forall>i \<in> fst ` set (tracks tr). i \<in> tu_track_id ` set (pubs1 @ pubs2) \<longleftrightarrow> i \<in> snd ` set m"
  proof
    fix i assume i: "i \<in> fst ` set (tracks tr)"
    have "tu_track_id ` set (pubs1 @ pubs2) = set (map tu_track_id (pubs1 @ pubs2))"
      by (simp only: set_map)
    also have "\<dots> = snd ` set m \<union> set news"
      unfolding ids by (simp only: set_append set_map)
    finally show "i \<in> tu_track_id ` set (pubs1 @ pubs2) \<longleftrightarrow> i \<in> snd ` set m"
      using fresh [OF i] by blast
  qed
  have fr: "\<forall>u \<in> set (pubs1 @ pubs2). tu_frame_id u = frame_id event"
    using r1(3) r2(3) by auto
  have cmq: "cycle_matching list_of thr tr event = (m, ud, ut)"
    by (simp add: cycle_matching_def dets_def [symmetric] cm)
  show ?thesis
    apply (intro exI [of _ tr'] exI [of _ "pubs1 @ pubs2"])
    apply (simp only: cmq prod.case res)
    using ids udm sub iff dist fr ok' unfolding n_def news_def
    apply (intro conjI)
    apply (simp_all only: simp_thms)
    done
qed

lemmas cycle_eval = process_detections_def match_detections_to_tracks_def enumerate_py_def
  get_active_tracks_def create_track_def update_track_def Track_init_def Track_update_def
  mark_missed_tracks_def mark_missed_def evict_old_tracks_def publish_track_update_def
  compute_velocity_def deque_append_def list_get_def dict_get_def Tracker_init_def Let_def

theorem track_updates_per_cycle_witness:
  "tracker_ok (Tracker_init 30) \<and> (\<forall>xs :: int list. mset ((\<lambda>xs. xs) xs) = mset xs) \<and>
   (\<exists>tr' pub.
      process_detections (\<lambda>xs. xs) (rnd (3 / 10)) (Tracker_init 30)
        \<lparr>frame_id = 1, timestamp_ms = 33,
         objects = [\<lparr>det_label = ''person'', det_confidence = 1 / 2,
                     det_bbox = (0, 0, 1 / 2, 1 / 2)\<rparr>]\<rparr> = Inr (tr', pub) \<and>
      map tu_track_id pub = [1] \<and> tracker_ok tr')"
proof -
  have h1: "tracker_ok (Tracker_init 30)" by (simp add: tracker_ok_def Tracker_init_def)
  have h2: "\<forall>xs :: int list. mset ((\<lambda>xs. xs) xs) = mset xs" by simp
  have cm: "cycle_matching (\<lambda>xs. xs) (rnd (3 / 10)) (Tracker_init 30)
        \<lparr>frame_id = 1, timestamp_ms = 33,
         objects = [\<lparr>det_label = ''person'', det_confidence = 1 / 2,
                     det_bbox = (0, 0, 1 / 2, 1 / 2)\<rparr>]\<rparr> = ([], [0], [])"
    by (simp add: cycle_matching_def match_detections_to_tracks_def get_active_tracks_def
          Tracker_init_def enumerate_py_def)
  show ?thesis
    using h1 h2 track_updates_per_cycle [OF h1 h2, of "rnd (3 / 10)"
        "\<lparr>frame_id = 1, timestamp_ms = 33,
          objects = [\<lparr>det_label = ''person'', det_confidence = 1 / 2,
                      det_bbox = (0, 0, 1 / 2, 1 / 2)\<rparr>]\<rparr>"]
    by (simp add: cm) (auto simp: Tracker_init_def)
qed

text \<open>
  Claim C9 as stated fails.  A first frame with one detection creates track 1; a second frame
  without detections leaves track 1 in the table (it is missed, not evicted) and publishes no
  \<open>TrackUpdate\<close>.
\<close>

theorem missed_track_gets_no_update:
  "process_detections id (rnd (3 / 10)) (Tracker_init 30)
     \<lparr>frame_id = 1, timestamp_ms = 33,
      objects = [\<lparr>det_label = ''person'', det_confidence = 1 / 2, det_bbox = (0, 0, 1 / 2, 1 / 2)\<rparr>]\<rparr>
   = Inr (\<lparr>max_age = 30, next_track_id = 2,
           tracks = [(1, \<lparr>track_id = 1, label = ''person'', bbox = (0, 0, 1 / 2, 1 / 2),
                          history = [\<lparr>h_bbox = (0, 0, 1 / 2, 1 / 2), h_frame_id = 1, h_timestamp_ms = 33\<rparr>],
                          consecutive_hits = 0, frames_since_update = 1, stable = False\<rparr>)]\<rparr>,
          [\<lparr>tu_track_id = 1, tu_frame_id = 1, tu_timestamp_ms = 33, tu_label = ''person'',
            tu_bbox = (0, 0, 1 / 2, 1 / 2), tu_stable = False, tu_velocity = None\<rparr>]) \<and>
   process_detections id (rnd (3 / 10))
     \<lparr>max_age = 30, next_track_id = 2,
      tracks = [(1, \<lparr>track_id = 1, label = ''person'', bbox = (0, 0, 1 / 2, 1 / 2),
                     history = [\<lparr>h_bbox = (0, 0, 1 / 2, 1 / 2), h_frame_id = 1, h_timestamp_ms = 33\<rparr>],
                     consecutive_hits = 0, frames_since_update = 1, stable = False\<rparr>)]\<rparr>
     \<lparr>frame_id = 2, timestamp_ms = 66, objects = []\<rparr>
   = Inr (\<lparr>max_age = 30, next_track_id = 2,
           tracks = [(1, \<lparr>track_id = 1, label = ''person'', bbox = (0, 0, 1 / 2, 1 / 2),
                          history = [\<lparr>h_bbox = (0, 0, 1 / 2, 1 / 2), h_frame_id = 1, h_timestamp_ms = 33\<rparr>],
                          consecutive_hits = 0, frames_since_update = 2, stable = False\<rparr>)]\<rparr>,
          [])"
  by (simp add: cycle_eval)

text \<open>
  Claim C3.  On an empty tracker, a frame with one detection creates track 1 and publishes
  its update with \<open>stable = False\<close>; then \<open>mark_missed_tracks\<close>, called with the ids
  matched in the cycle, marks the new track as missed in the same cycle.  At the end of the
  cycle the track has \<open>consecutive_hits = 0\<close> and \<open>frames_since_update = 1\<close>, where the
  claim says 1 and 0.
\<close>

theorem new_track_marked_missed:
  "process_detections id (rnd (3 / 10)) (Tracker_init 30)
     \<lparr>frame_id = 7, timestamp_ms = 231,
      objects = [\<lparr>det_label = ''vehicle'', det_confidence = 3 / 4, det_bbox = (1 / 4, 1 / 4, 1 / 2, 1 / 4)\<rparr>]\<rparr>
   = Inr (\<lparr>max_age = 30, next_track_id = 2,
           tracks = [(1, \<lparr>track_id = 1, label = ''vehicle'', bbox = (1 / 4, 1 / 4, 1 / 2, 1 / 4),
                          history = [\<lparr>h_bbox = (1 / 4, 1 / 4, 1 / 2, 1 / 4), h_frame_id = 7,
                                      h_timestamp_ms = 231\<rparr>],
                          consecutive_hits = 0, frames_since_update = 1, stable = False\<rparr>)]\<rparr>,
          [\<lparr>tu_track_id = 1, tu_frame_id = 7, tu_timestamp_ms = 231, tu_label = ''vehicle'',
            tu_bbox = (1 / 4, 1 / 4, 1 / 2, 1 / 4), tu_stable = False, tu_velocity = None\<rparr>])"
  by (simp add: cycle_eval)

end
